theory Spec2Isabelle
  imports Complex_Main
begin

section \<open>Errors and numbers\<close>

text \<open>
  The program is Python on top of a tensor library.  Python integers are unbounded and
  are modelled as \<open>int\<close>; floor division and remainder of Python agree with \<open>div\<close> and
  \<open>mod\<close> on \<open>int\<close> for every sign of the divisor.  Every exception the modelled code can
  raise is a value of \<open>py_error\<close>, and a function that can raise returns
  \<open>py_error + 'a\<close>.
\<close>

datatype py_error =
  ZeroDivisionError | IndexError | ValueError | RuntimeError | OverflowError | TypeError
  | AttributeError

definition ebind :: "py_error + 'a \<Rightarrow> ('a \<Rightarrow> py_error + 'b) \<Rightarrow> py_error + 'b" where
  "ebind m f = (case m of Inl e \<Rightarrow> Inl e | Inr x \<Rightarrow> f x)"

subsection \<open>Floating-point values\<close>

text \<open>
  A floating-point value is a finite number, one of the two infinities, or NaN.  The sign
  of a zero is not modelled: there is one zero, and it behaves as \<open>+0\<close> where the sign
  would matter (division by zero, \<open>rsqrt\<close> of zero).

  A format consists of the threshold \<open>ovf\<close> from which the magnitude of an exact result
  overflows to an infinity, and of the rounding \<open>fl\<close> of the results that stay in range.
  The thresholds of the two formats of the program are fixed: \<open>2^128 - 2^103\<close> for the
  32-bit floats of the tensors and \<open>2^1024 - 2^970\<close> for the 64-bit floats of Python.
  The rounding is a parameter of the model, one function for each kind of operation, so
  that a statement proved for every format holds whatever each kernel of the machine rounds
  to.  Zero is a value of every format and is never rounded.
\<close>

datatype fp = Num real | Pinf | Ninf | Nan

datatype kernel = KConv | KAdd | KMul | KDiv | KRsqrt | KPow | KCos | KSin

record format =
  fl :: "kernel \<Rightarrow> real \<Rightarrow> real"
  ovf :: real

definition binary32 :: "(kernel \<Rightarrow> real \<Rightarrow> real) \<Rightarrow> format" where
  "binary32 r = \<lparr>fl = r, ovf = 2 ^ 128 - 2 ^ 103\<rparr>"

definition binary64 :: "(kernel \<Rightarrow> real \<Rightarrow> real) \<Rightarrow> format" where
  "binary64 r = \<lparr>fl = r, ovf = 2 ^ 1024 - 2 ^ 970\<rparr>"

text \<open>
  The rounding that never rounds.  It is used at concrete inputs only, where every
  intermediate result is zero, overflows, or is a number that the format holds exactly.
\<close>

definition exact :: "kernel \<Rightarrow> real \<Rightarrow> real" where
  "exact k x = x"

text \<open>The value stored for the exact result \<open>x\<close> of an operation of kind \<open>k\<close>.\<close>

definition round_to :: "format \<Rightarrow> kernel \<Rightarrow> real \<Rightarrow> fp" where
  "round_to F k x =
     (if x = 0 then Num 0
      else if ovf F \<le> x then Pinf
      else if x \<le> - ovf F then Ninf
      else Num (fl F k x))"

fun fadd :: "format \<Rightarrow> fp \<Rightarrow> fp \<Rightarrow> fp" where
  "fadd F (Num x) (Num y) = round_to F KAdd (x + y)"
| "fadd F Nan b = Nan"
| "fadd F a Nan = Nan"
| "fadd F Pinf Ninf = Nan"
| "fadd F Ninf Pinf = Nan"
| "fadd F Pinf b = Pinf"
| "fadd F a Pinf = Pinf"
| "fadd F Ninf b = Ninf"
| "fadd F a Ninf = Ninf"

fun fmul :: "format \<Rightarrow> fp \<Rightarrow> fp \<Rightarrow> fp" where
  "fmul F (Num x) (Num y) = round_to F KMul (x * y)"
| "fmul F Nan b = Nan"
| "fmul F a Nan = Nan"
| "fmul F (Num x) Pinf = (if x = 0 then Nan else if 0 < x then Pinf else Ninf)"
| "fmul F (Num x) Ninf = (if x = 0 then Nan else if 0 < x then Ninf else Pinf)"
| "fmul F Pinf (Num y) = (if y = 0 then Nan else if 0 < y then Pinf else Ninf)"
| "fmul F Ninf (Num y) = (if y = 0 then Nan else if 0 < y then Ninf else Pinf)"
| "fmul F Pinf Pinf = Pinf"
| "fmul F Pinf Ninf = Ninf"
| "fmul F Ninf Pinf = Ninf"
| "fmul F Ninf Ninf = Pinf"

fun fdiv :: "format \<Rightarrow> fp \<Rightarrow> fp \<Rightarrow> fp" where
  "fdiv F (Num x) (Num y) =
     (if y = 0 then (if x = 0 then Nan else if 0 < x then Pinf else Ninf)
      else round_to F KDiv (x / y))"
| "fdiv F Nan b = Nan"
| "fdiv F a Nan = Nan"
| "fdiv F (Num x) Pinf = Num 0"
| "fdiv F (Num x) Ninf = Num 0"
| "fdiv F Pinf (Num y) = (if 0 \<le> y then Pinf else Ninf)"
| "fdiv F Ninf (Num y) = (if 0 \<le> y then Ninf else Pinf)"
| "fdiv F Pinf Pinf = Nan"
| "fdiv F Pinf Ninf = Nan"
| "fdiv F Ninf Pinf = Nan"
| "fdiv F Ninf Ninf = Nan"

text \<open>\<open>torch.rsqrt\<close>: the reciprocal of the square root.\<close>

fun frsqrt :: "format \<Rightarrow> fp \<Rightarrow> fp" where
  "frsqrt F (Num x) =
     (if x < 0 then Nan else if x = 0 then Pinf else round_to F KRsqrt (1 / sqrt x))"
| "frsqrt F Pinf = Num 0"
| "frsqrt F Ninf = Nan"
| "frsqrt F Nan = Nan"

text \<open>The comparison \<open>a < b\<close> of two floating-point values; it is false when one is NaN.\<close>

fun fp_less :: "fp \<Rightarrow> fp \<Rightarrow> bool" where
  "fp_less (Num x) (Num y) = (x < y)"
| "fp_less Nan b = False"
| "fp_less a Nan = False"
| "fp_less a Ninf = False"
| "fp_less Ninf b = True"
| "fp_less Pinf b = False"
| "fp_less a Pinf = True"

text \<open>
  A Python \<open>float\<close> that meets a tensor of another format is converted to the format of
  the tensor first.
\<close>

fun cast :: "format \<Rightarrow> fp \<Rightarrow> fp" where
  "cast F (Num x) = round_to F KConv x"
| "cast F v = v"

subsection \<open>Python scalars\<close>

text \<open>
  A decimal literal denotes the nearest 64-bit float.  The conversion of an \<open>int\<close> to a
  \<open>float\<close>, and the true division \<open>a / b\<close> of two \<open>int\<close>s, raise \<open>OverflowError\<close> where the
  result would overflow; \<open>int(x)\<close> truncates towards zero and raises on an infinity
  (\<open>OverflowError\<close>) and on NaN (\<open>ValueError\<close>).
\<close>

definition py_literal :: "format \<Rightarrow> real \<Rightarrow> fp" where
  "py_literal F x = round_to F KConv x"

definition py_float :: "format \<Rightarrow> int \<Rightarrow> py_error + fp" where
  "py_float F n =
     (if ovf F \<le> \<bar>real_of_int n\<bar> then Inl OverflowError
      else Inr (round_to F KConv (real_of_int n)))"

definition py_truediv :: "format \<Rightarrow> int \<Rightarrow> int \<Rightarrow> py_error + fp" where
  "py_truediv F a b =
     (if b = 0 then Inl ZeroDivisionError
      else if ovf F \<le> \<bar>real_of_int a / real_of_int b\<bar> then Inl OverflowError
      else Inr (round_to F KDiv (real_of_int a / real_of_int b)))"

fun py_int :: "fp \<Rightarrow> py_error + int" where
  "py_int (Num x) = Inr (if 0 \<le> x then \<lfloor>x\<rfloor> else \<lceil>x\<rceil>)"
| "py_int Pinf = Inl OverflowError"
| "py_int Ninf = Inl OverflowError"
| "py_int Nan = Inl ValueError"

section \<open>Configuration: \<open>ModelArgs\<close> and \<open>find_multiple\<close>\<close>

text \<open>
  \<open>intermediate_size\<close> is an attribute that \<open>__post_init__\<close> adds to the instance; it is
  \<open>None\<close> while the attribute does not exist.
\<close>

record ModelArgs =
  dim :: int
  n_layers :: int
  n_heads :: int
  n_kv_heads :: "int option"
  vocab_size :: int
  multiple_of :: int
  ffn_dim_multiplier :: "fp option"
  norm_eps :: fp
  max_batch_size :: int
  max_seq_len :: int
  intermediate_size :: "int option"

text \<open>The dataclass defaults, for the fields a caller leaves out.\<close>

definition default_args :: "format \<Rightarrow> ModelArgs" where
  "default_args F =
     \<lparr>dim = 4096, n_layers = 32, n_heads = 32, n_kv_heads = None, vocab_size = 32000,
      multiple_of = 256, ffn_dim_multiplier = None, norm_eps = py_literal F (1 / 100000),
      max_batch_size = 32, max_seq_len = 2048, intermediate_size = None\<rparr>"


text \<open>
  A configuration that breaks both divisibility requirements of the specification:
  \<open>10 mod 4 = 2\<close> and \<open>4 mod 3 = 1\<close>.
\<close>

definition bad_args :: "format \<Rightarrow> ModelArgs" where
  "bad_args F = (default_args F)\<lparr>dim := 10, n_heads := 4, n_kv_heads := Some 3\<rparr>"



definition find_multiple :: "int \<Rightarrow> int \<Rightarrow> py_error + int" where
  "find_multiple n k =
     (if k = 0 then Inl ZeroDivisionError
      else if n mod k = 0 then Inr n
      else Inr (n + k - n mod k))"

text \<open>
  The right-hand side \<open>int(2 * self.ffn_dim_multiplier * self.dim)\<close>: the product
  \<open>2 * m\<close> is a float, and \<open>dim\<close> is converted to a float before the second product.
\<close>

definition intermediate_size_raw :: "format \<Rightarrow> fp \<Rightarrow> int \<Rightarrow> py_error + int" where
  "intermediate_size_raw F m d =
     ebind (py_float F d) (\<lambda>df. py_int (fmul F (fmul F (Num 2) m) df))"

definition post_init :: "format \<Rightarrow> ModelArgs \<Rightarrow> py_error + ModelArgs" where
  "post_init F a =
     (let kv = (case n_kv_heads a of None \<Rightarrow> n_heads a | Some v \<Rightarrow> v)
      in ebind (case ffn_dim_multiplier a of None \<Rightarrow> py_truediv F 4 3 | Some v \<Rightarrow> Inr v)
           (\<lambda>m.
         ebind (intermediate_size_raw F m (dim a)) (\<lambda>raw.
         ebind (find_multiple raw (multiple_of a)) (\<lambda>i.
         Inr (a\<lparr>n_kv_heads := Some kv, ffn_dim_multiplier := Some m,
                intermediate_size := Some i\<rparr>)))))"

section \<open>Layer construction\<close>

text \<open>
  \<open>nn.Linear(i, o, bias=False)\<close> allocates an \<open>o \<times> i\<close> weight matrix, which it fills at
  random; a negative size is refused by the allocation.  The constructors of the layers
  are modelled by the shapes they allocate.
\<close>

record linear_shape =
  in_features :: int
  out_features :: int

definition Linear_init :: "int \<Rightarrow> int \<Rightarrow> py_error + linear_shape" where
  "Linear_init i out =
     (if i < 0 \<or> out < 0 then Inl RuntimeError
      else Inr \<lparr>in_features = i, out_features = out\<rparr>)"




record Attention_shape =
  att_n_kv_heads :: int
  att_n_heads_q :: int
  att_n_rep :: int
  att_head_dim :: int
  att_wq :: linear_shape
  att_wk :: linear_shape
  att_wv :: linear_shape
  att_wo :: linear_shape

text \<open>
  \<open>Attention.__init__\<close> reads \<open>args.n_kv_heads\<close> after \<open>__post_init__\<close> has filled it in;
  on an instance where it is still \<open>None\<close> the floor division raises \<open>TypeError\<close>.
\<close>

definition Attention_init :: "ModelArgs \<Rightarrow> py_error + Attention_shape" where
  "Attention_init a =
     (case n_kv_heads a of
        None \<Rightarrow> Inl TypeError
      | Some kv \<Rightarrow>
          if kv = 0 \<or> n_heads a = 0 then Inl ZeroDivisionError
          else
            (let n_rep = n_heads a div kv;
                 head_dim = dim a div n_heads a
             in ebind (Linear_init (dim a) (n_heads a * head_dim)) (\<lambda>wq.
                ebind (Linear_init (dim a) (kv * head_dim)) (\<lambda>wk.
                ebind (Linear_init (dim a) (kv * head_dim)) (\<lambda>wv.
                ebind (Linear_init (n_heads a * head_dim) (dim a)) (\<lambda>wo.
                Inr \<lparr>att_n_kv_heads = kv, att_n_heads_q = n_heads a,
                     att_n_rep = n_rep, att_head_dim = head_dim,
                     att_wq = wq, att_wk = wk, att_wv = wv, att_wo = wo\<rparr>))))))"

text \<open>
  \<open>RMSNorm.__init__\<close> stores \<open>eps\<close> and allocates the weight \<open>torch.ones(dim)\<close>.
\<close>

record RMSNorm =
  rms_eps :: fp
  rms_weight :: "fp list"




section \<open>Tensors as nested lists\<close>

text \<open>
  A tensor is a nested list of its elements, outermost axis first; the elements of the
  tensors of this program are 32-bit floats.  An operation that raises on incompatible
  shapes returns \<open>Inl RuntimeError\<close>.
\<close>

fun mapM :: "('a \<Rightarrow> py_error + 'b) \<Rightarrow> 'a list \<Rightarrow> py_error + 'b list" where
  "mapM f [] = Inr []"
| "mapM f (x # xs) = ebind (f x) (\<lambda>y. ebind (mapM f xs) (\<lambda>ys. Inr (y # ys)))"

text \<open>
  Broadcasting along one axis: two sizes are compatible when they are equal or one of
  them is 1, and the axis of size 1 is repeated.
\<close>

definition bc_zipM ::
  "('a \<Rightarrow> 'b \<Rightarrow> py_error + 'c) \<Rightarrow> 'a list \<Rightarrow> 'b list \<Rightarrow> py_error + 'c list" where
  "bc_zipM f xs ys =
     (if length xs = length ys then mapM (\<lambda>(x, y). f x y) (zip xs ys)
      else if length xs = 1 then mapM (f (hd xs)) ys
      else if length ys = 1 then mapM (\<lambda>x. f x (hd ys)) xs
      else Inl RuntimeError)"

text \<open>The sum of the entries of an axis, accumulated from the left.\<close>

definition fsum :: "format \<Rightarrow> fp list \<Rightarrow> fp" where
  "fsum F xs = foldl (fadd F) (Num 0) xs"

section \<open>\<open>RMSNorm\<close>\<close>

text \<open>
  \<open>_norm\<close> and \<open>forward\<close> on one vector, the last axis of the input, in the format \<open>F\<close> of
  the tensors.  The input is a 32-bit tensor, so \<open>x.float()\<close> and \<open>type_as(x)\<close> change
  nothing.  \<open>x.pow(2)\<close> is the product \<open>x * x\<close>; the mean is the sum divided by the number
  of entries, and the mean of no entries is \<open>0 / 0\<close>; \<open>eps\<close> is a Python float.
\<close>

definition RMSNorm_norm :: "format \<Rightarrow> RMSNorm \<Rightarrow> fp list \<Rightarrow> fp list" where
  "RMSNorm_norm F n x =
     (let ms = fdiv F (fsum F (map (\<lambda>v. fmul F v v) x)) (round_to F KConv (real (length x)));
          r = frsqrt F (fadd F ms (cast F (rms_eps n)))
      in map (\<lambda>v. fmul F v r) x)"

definition RMSNorm_forward :: "format \<Rightarrow> RMSNorm \<Rightarrow> fp list \<Rightarrow> py_error + fp list" where
  "RMSNorm_forward F n x =
     bc_zipM (\<lambda>a b. Inr (fmul F a b)) (RMSNorm_norm F n x) (rms_weight n)"

text \<open>
  The value of the specification's formula \<open>weight_i * x_i / sqrt(mean_j(x_j^2) + eps)\<close>
  on real numbers.
\<close>

definition rms_formula :: "real \<Rightarrow> real list \<Rightarrow> real list \<Rightarrow> real list" where
  "rms_formula e xs ws =
     map (\<lambda>(x, w). w * x / sqrt (sum_list (map (\<lambda>v. v * v) xs) / real (length xs) + e))
         (zip xs ws)"

text \<open>
  An operation is exact at \<open>x\<close> when its exact result \<open>x\<close> is stored unchanged.  A run of
  \<open>RMSNorm.forward\<close> is exact when each of its operations is: the squares, the partial sums,
  the division by the dimension, the addition of \<open>eps\<close>, \<open>rsqrt\<close> and the two products.
\<close>

definition exact_op :: "format \<Rightarrow> kernel \<Rightarrow> real \<Rightarrow> bool" where
  "exact_op F k x = (round_to F k x = Num x)"

definition RMSNorm_exact :: "format \<Rightarrow> real \<Rightarrow> real list \<Rightarrow> real list \<Rightarrow> bool" where
  "RMSNorm_exact F e xs ws =
     (let sq = map (\<lambda>v. v * v) xs;
          ms = sum_list sq / real (length xs);
          r = 1 / sqrt (ms + e)
      in xs \<noteq> [] \<and>
         list_all (\<lambda>v. exact_op F KMul (v * v)) xs \<and>
         list_all (\<lambda>n. exact_op F KAdd (sum_list (take n sq))) [0..<Suc (length xs)] \<and>
         exact_op F KConv (real (length xs)) \<and>
         exact_op F KDiv ms \<and>
         exact_op F KAdd (ms + e) \<and>
         0 < ms + e \<and>
         exact_op F KRsqrt r \<and>
         list_all (\<lambda>v. exact_op F KMul (v * r)) xs \<and>
         list_all (\<lambda>(v, w). exact_op F KMul (v * r * w)) (zip xs ws))"

text \<open>A rounding keeps the sign when it sends no non-negative number below zero.\<close>

definition rounds_nonneg :: "format \<Rightarrow> bool" where
  "rounds_nonneg F = (\<forall>k x. 0 \<le> x \<longrightarrow> 0 \<le> fl F k x)"

section \<open>Grouped-query expansion\<close>

text \<open>
  \<open>x[:, :, :, None, :].expand(batch, seq_len, n_kv_heads, n_rep, head_dim)\<close> repeats every
  head \<open>n_rep\<close> times on a new axis, and the reshape merges that axis into the head axis
  in row-major order.
\<close>

definition repeat_kv :: "'a list list list list \<Rightarrow> nat \<Rightarrow> 'a list list list list" where
  "repeat_kv x n_rep =
     (if n_rep = 1 then x
      else map (map (\<lambda>heads. concat (map (\<lambda>h. replicate n_rep h) heads))) x)"

section \<open>Causal mask\<close>

text \<open>
  \<open>torch.full((1, 1, seqlen, seqlen), -inf)\<close> and \<open>torch.triu(mask, diagonal)\<close>, which
  keeps the entries with \<open>j - i \<ge> diagonal\<close> and sets the others to zero.  The two leading
  axes of size 1 are left implicit.  The entries of the mask are \<open>-inf\<close> and finite
  numbers.
\<close>

datatype xreal = NegInf | Fin real

definition full :: "nat \<Rightarrow> nat \<Rightarrow> 'a \<Rightarrow> 'a list list" where
  "full r c v = replicate r (replicate c v)"

definition triu :: "xreal list list \<Rightarrow> int \<Rightarrow> xreal list list" where
  "triu m diagonal =
     map (\<lambda>(i, row). map (\<lambda>(j, v). if diagonal \<le> int j - int i then v else Fin 0)
                           (enumerate 0 row))
         (enumerate 0 m)"

definition build_mask :: "nat \<Rightarrow> xreal list list option" where
  "build_mask seqlen =
     (if seqlen > 1 then Some (triu (full seqlen seqlen NegInf) 1) else None)"

section \<open>Greedy decoding\<close>

text \<open>
  \<open>torch.argmax\<close> along the last axis returns the index of the first greatest entry,
  where a NaN counts as greater than every number, and raises \<open>IndexError\<close> on an empty
  axis.  \<open>replaces a b\<close> tells whether a later entry \<open>a\<close> takes the place of the best
  entry \<open>b\<close> found so far.
\<close>

definition replaces :: "fp \<Rightarrow> fp \<Rightarrow> bool" where
  "replaces a b = (if a = Nan then b \<noteq> Nan else fp_less b a)"

fun argmax_from :: "nat \<Rightarrow> fp \<Rightarrow> nat \<Rightarrow> fp list \<Rightarrow> nat" where
  "argmax_from best bv i [] = best"
| "argmax_from best bv i (x # xs) =
     (if replaces x bv then argmax_from i x (Suc i) xs else argmax_from best bv (Suc i) xs)"

definition argmax :: "fp list \<Rightarrow> py_error + int" where
  "argmax xs = (case xs of [] \<Rightarrow> Inl IndexError
                | x # r \<Rightarrow> Inr (int (argmax_from 0 x 1 r)))"

text \<open>
  The collaborators of \<open>generate_text_greedy\<close> are parameters: the model is any function
  from token ids \<open>[batch, seq]\<close> and a start position to logits \<open>[batch, seq, vocab]\<close>, and the
  tokenizer supplies \<open>encode\<close>, \<open>decode\<close> and the end-of-sequence id.
\<close>

type_synonym model = "int list list \<Rightarrow> int \<Rightarrow> py_error + fp list list list"

record 'text tokenizer =
  encode :: "'text \<Rightarrow> int list list"
  decode :: "int list \<Rightarrow> 'text"
  eos_token_id :: "int option"

text \<open>\<open>outputs[:, -1, :]\<close>: the last position of every batch row.\<close>

definition last_position :: "fp list list list \<Rightarrow> py_error + fp list list" where
  "last_position outputs =
     mapM (\<lambda>b. if b = [] then Inl IndexError else Inr (last b)) outputs"

text \<open>
  \<open>next_token_logits / temperature\<close>: \<open>temperature\<close> is a Python float, converted to the
  format of the logits before the division.
\<close>

definition div_scalar :: "format \<Rightarrow> fp list list \<Rightarrow> fp \<Rightarrow> fp list list" where
  "div_scalar F x s = map (map (\<lambda>v. fdiv F v (cast F s))) x"

text \<open>\<open>torch.cat([input_ids, next_token], dim=-1)\<close> with \<open>next_token\<close> of shape
  \<open>[batch, 1]\<close>.\<close>

definition cat_last :: "int list list \<Rightarrow> int list \<Rightarrow> py_error + int list list" where
  "cat_last ids next_token =
     (if length ids = length next_token
      then Inr (map (\<lambda>(r, t). r @ [t]) (zip ids next_token))
      else Inl RuntimeError)"

text \<open>\<open>next_token.item()\<close>: only a tensor with one element has a scalar value.\<close>

definition item :: "int list \<Rightarrow> py_error + int" where
  "item t = (case t of [v] \<Rightarrow> Inr v | _ \<Rightarrow> Inl RuntimeError)"

fun greedy_loop ::
  "format \<Rightarrow> model \<Rightarrow> int option \<Rightarrow> fp \<Rightarrow> nat \<Rightarrow> int list list \<Rightarrow> py_error + int list list"
  where
  "greedy_loop F m eos temperature 0 input_ids = Inr input_ids"
| "greedy_loop F m eos temperature (Suc n) input_ids =
     ebind (m input_ids 0) (\<lambda>outputs.
     ebind (last_position outputs) (\<lambda>last_logits.
     ebind (mapM argmax (div_scalar F last_logits temperature)) (\<lambda>next_token.
     ebind (cat_last input_ids next_token) (\<lambda>input_ids'.
     ebind (item next_token) (\<lambda>tok.
       if Some tok = eos then Inr input_ids'
       else greedy_loop F m eos temperature n input_ids')))))"

definition generate_text_greedy ::
  "format \<Rightarrow> model \<Rightarrow> 'text tokenizer \<Rightarrow> 'text \<Rightarrow> int \<Rightarrow> fp \<Rightarrow> py_error + 'text" where
  "generate_text_greedy F m tok prompt max_length temperature =
     ebind (greedy_loop F m (eos_token_id tok) temperature (nat max_length)
              (encode tok prompt))
       (\<lambda>input_ids. case input_ids of [] \<Rightarrow> Inl IndexError
                     | r # _ \<Rightarrow> Inr (decode tok r))"

text \<open>
  The scaling by a temperature keeps the order of a row of logits when, for any two entries
  of the row, the scaled entries compare as the entries do.
\<close>

definition keeps_order :: "format \<Rightarrow> fp \<Rightarrow> fp list \<Rightarrow> bool" where
  "keeps_order F s row =
     list_all (\<lambda>a. list_all (\<lambda>b. replaces (fdiv F a (cast F s)) (fdiv F b (cast F s))
                                      = replaces a b) row) row"

text \<open>
  A model for concrete runs: whatever the input, one batch row with one position and the
  logits \<open>[1, 3, 2]\<close> over a vocabulary of three tokens.
\<close>

definition const_model :: model where
  "const_model input_ids start_pos = Inr [[[Num 1, Num 3, Num 2]]]"

section \<open>Rotary position encoding\<close>

text \<open>
  \<open>theta ** x\<close> on floats, with the special cases of the power function: any base to the
  power 0 is 1, and 1 to any power is 1, also for a NaN; a negative base has a power for an
  integral exponent only.
\<close>

definition fpow :: "format \<Rightarrow> fp \<Rightarrow> fp \<Rightarrow> fp" where
  "fpow F x y =
     (if y = Num 0 \<or> x = Num 1 then Num 1
      else case (x, y) of
        (Nan, _) \<Rightarrow> Nan
      | (_, Nan) \<Rightarrow> Nan
      | (Num a, Num b) \<Rightarrow>
          if a = 0 then (if b < 0 then Pinf else Num 0)
          else if 0 < a then round_to F KPow (a powr b)
          else if of_int \<lfloor>b\<rfloor> = b
               then round_to F KPow ((if even \<lfloor>b\<rfloor> then 1 else - 1) * (\<bar>a\<bar> powr b))
               else Nan
      | (Num a, Pinf) \<Rightarrow> if \<bar>a\<bar> < 1 then Num 0 else if \<bar>a\<bar> = 1 then Num 1 else Pinf
      | (Num a, Ninf) \<Rightarrow> if \<bar>a\<bar> < 1 then Pinf else if \<bar>a\<bar> = 1 then Num 1 else Num 0
      | (Pinf, Num b) \<Rightarrow> if b < 0 then Num 0 else Pinf
      | (Ninf, Num b) \<Rightarrow>
          if b < 0 then Num 0
          else if of_int \<lfloor>b\<rfloor> = b \<and> odd \<lfloor>b\<rfloor> then Ninf else Pinf
      | (_, Pinf) \<Rightarrow> Pinf
      | (_, Ninf) \<Rightarrow> Num 0)"

fun fcos :: "format \<Rightarrow> fp \<Rightarrow> fp" where
  "fcos F (Num x) = round_to F KCos (cos x)"
| "fcos F v = Nan"

fun fsin :: "format \<Rightarrow> fp \<Rightarrow> fp" where
  "fsin F (Num x) = round_to F KSin (sin x)"
| "fsin F v = Nan"

fun fneg :: "fp \<Rightarrow> fp" where
  "fneg (Num x) = Num (- x)"
| "fneg Pinf = Ninf"
| "fneg Ninf = Pinf"
| "fneg Nan = Nan"

definition fsub :: "format \<Rightarrow> fp \<Rightarrow> fp \<Rightarrow> fp" where
  "fsub F a b = fadd F a (fneg b)"

text \<open>
  A complex number is the pair of its real and imaginary parts.  The product
  \<open>(a + bi)(c + di)\<close> is computed as \<open>(ac - bd) + (ad + bc)i\<close>, and \<open>torch.polar(r, t)\<close>
  as \<open>r cos t + (r sin t)i\<close>.
\<close>

type_synonym cfp = "fp \<times> fp"

definition cmul :: "format \<Rightarrow> cfp \<Rightarrow> cfp \<Rightarrow> cfp" where
  "cmul F x f =
     (fsub F (fmul F (fst x) (fst f)) (fmul F (snd x) (snd f)),
      fadd F (fmul F (fst x) (snd f)) (fmul F (snd x) (fst f)))"

definition polar :: "format \<Rightarrow> fp \<Rightarrow> fp \<Rightarrow> cfp" where
  "polar F r t = (fmul F r (fcos F t), fmul F r (fsin F t))"

text \<open>\<open>torch.arange(0, d, 2)\<close> for \<open>d \<ge> 0\<close>.\<close>

definition arange2 :: "int \<Rightarrow> nat list" where
  "arange2 d = map (\<lambda>i. 2 * i) [0..<nat ((d + 1) div 2)]"

text \<open>
  The entry of the table for position \<open>t\<close> and the element \<open>k\<close> of \<open>arange(0, dim, 2)\<close>
  is \<open>polar(1, t * freq)\<close> with \<open>freq = 1.0 / (theta ** (float(k) / dim))\<close>.  The integers
  \<open>k\<close>, \<open>dim\<close> and \<open>t\<close> are converted to floats; \<open>1.0 / x\<close> on a tensor is the reciprocal of
  \<open>x\<close> times \<open>1.0\<close>.  A negative \<open>dim\<close> or \<open>end\<close> is refused by \<open>torch.arange\<close>.
\<close>

definition rotary_angle :: "format \<Rightarrow> int \<Rightarrow> fp \<Rightarrow> nat \<Rightarrow> nat \<Rightarrow> fp" where
  "rotary_angle F d theta t k =
     (let e = fdiv F (round_to F KConv (real k)) (round_to F KConv (real_of_int d));
          freq = fmul F (fdiv F (Num 1) (fpow F (cast F theta) e)) (Num 1)
      in fmul F (round_to F KConv (real t)) freq)"

definition precompute_freqs_cis ::
  "format \<Rightarrow> int \<Rightarrow> int \<Rightarrow> fp \<Rightarrow> py_error + cfp list list" where
  "precompute_freqs_cis F d end_pos theta =
     (if d < 0 \<or> end_pos < 0 then Inl RuntimeError
      else Inr (map (\<lambda>t. map (\<lambda>k. polar F (Num 1) (rotary_angle F d theta t k)) (arange2 d))
                    [0..<nat end_pos]))"

text \<open>
  \<open>reshape(*x.shape[:-1], -1, 2)\<close> followed by \<open>view_as_complex\<close> pairs the entries of the
  last axis, and \<open>view_as_real\<close> followed by \<open>flatten(3)\<close> puts the pairs back.
\<close>

fun to_pairs :: "'a list \<Rightarrow> ('a \<times> 'a) list" where
  "to_pairs (a # b # r) = (a, b) # to_pairs r"
| "to_pairs _ = []"

definition from_pairs :: "('a \<times> 'a) list \<Rightarrow> 'a list" where
  "from_pairs cs = concat (map (\<lambda>(a, b). [a, b]) cs)"

text \<open>
  One of the two rotations of \<open>apply_rotary_emb\<close>, on a tensor
  \<open>[batch, seq, heads, head_dim]\<close> and a table \<open>[seq, head_dim / 2]\<close>.  The reshape raises
  when the last axis is odd, and when the tensor has an empty leading axis, as the size
  \<open>-1\<close> cannot be inferred then.  The table is viewed as \<open>[1, seq, 1, head_dim / 2]\<close> and the
  product broadcasts along the sequence axis and along the axis of the pairs.
\<close>

definition rotate ::
  "format \<Rightarrow> fp list list list list \<Rightarrow> cfp list list \<Rightarrow> py_error + fp list list list list"
  where
  "rotate F x fc =
     (if concat (concat x) = [] \<or> list_ex (\<lambda>h. odd (length h)) (concat (concat x))
      then Inl RuntimeError
      else mapM (\<lambda>b. bc_zipM (\<lambda>hs frow. mapM (\<lambda>h.
             ebind (bc_zipM (\<lambda>c f. Inr (cmul F c f)) (to_pairs h) frow)
               (\<lambda>r. Inr (from_pairs r))) hs) b fc) x)"

definition apply_rotary_emb ::
  "format \<Rightarrow> fp list list list list \<Rightarrow> fp list list list list \<Rightarrow> cfp list list
     \<Rightarrow> py_error + fp list list list list \<times> fp list list list list" where
  "apply_rotary_emb F xq xk fc =
     ebind (rotate F xq fc) (\<lambda>xq_out.
     ebind (rotate F xk fc) (\<lambda>xk_out. Inr (xq_out, xk_out)))"

text \<open>
  A tensor \<open>[batch, seq, heads, d]\<close> with at least one vector: every batch row has \<open>seq\<close>
  positions and every vector \<open>d\<close> entries.
\<close>

definition shaped4 :: "'a list list list list \<Rightarrow> nat \<Rightarrow> nat \<Rightarrow> bool" where
  "shaped4 x seq d =
     (concat (concat x) \<noteq> [] \<and>
      list_all (\<lambda>b. length b = seq \<and> list_all (list_all (\<lambda>h. length h = d)) b) x)"

text \<open>
  The number that a finite value holds, and the magnitude of the pair \<open>i\<close> of a vector of
  finite values.
\<close>

fun num :: "fp \<Rightarrow> real" where
  "num (Num x) = x"
| "num v = 0"

fun is_finite :: "fp \<Rightarrow> bool" where
  "is_finite (Num x) = True"
| "is_finite v = False"

definition pair_abs :: "fp list \<Rightarrow> nat \<Rightarrow> real" where
  "pair_abs v i = sqrt ((num (v ! (2 * i)))\<^sup>2 + (num (v ! (2 * i + 1)))\<^sup>2)"

text \<open>
  An operation of kind \<open>k\<close> is accurate to \<open>u\<close> at the exact result \<open>x\<close> when the stored
  result is a finite number within the relative error \<open>u\<close> of \<open>x\<close>; for the 32-bit floats
  and their basic operations \<open>u = 2^-24\<close>, where the result neither overflows nor
  underflows.  \<open>rnd\<close> is the number stored.
\<close>

definition accurate :: "format \<Rightarrow> kernel \<Rightarrow> real \<Rightarrow> real \<Rightarrow> bool" where
  "accurate F k u x = (case round_to F k x of Num y \<Rightarrow> \<bar>y - x\<bar> \<le> u * \<bar>x\<bar> | _ \<Rightarrow> False)"

definition rnd :: "format \<Rightarrow> kernel \<Rightarrow> real \<Rightarrow> real" where
  "rnd F k x = num (round_to F k x)"

text \<open>The operations of \<open>polar(1, t)\<close>, and those of the product \<open>(a + bi)(c + si)\<close>.\<close>

definition polar_accurate :: "format \<Rightarrow> real \<Rightarrow> fp \<Rightarrow> bool" where
  "polar_accurate F u t =
     (case t of
        Num th \<Rightarrow>
          accurate F KCos u (cos th) \<and> accurate F KMul u (1 * rnd F KCos (cos th)) \<and>
          accurate F KSin u (sin th) \<and> accurate F KMul u (1 * rnd F KSin (sin th))
      | _ \<Rightarrow> False)"

definition cmul_accurate :: "format \<Rightarrow> real \<Rightarrow> cfp \<Rightarrow> cfp \<Rightarrow> bool" where
  "cmul_accurate F u x f =
     (case (x, f) of
        ((Num a, Num b), (Num c, Num s)) \<Rightarrow>
          accurate F KMul u (a * c) \<and> accurate F KMul u (b * s) \<and>
          accurate F KAdd u (rnd F KMul (a * c) - rnd F KMul (b * s)) \<and>
          accurate F KMul u (a * s) \<and> accurate F KMul u (b * c) \<and>
          accurate F KAdd u (rnd F KMul (a * s) + rnd F KMul (b * c))
      | _ \<Rightarrow> False)"

text \<open>
  The rotation of the pair \<open>i\<close> of the vector \<open>v\<close> by the table entry of the angle \<open>t\<close> is
  accurate to \<open>u\<close> when the operations that compute the entry from the angle and those of
  the product are.
\<close>

definition rotation_accurate :: "format \<Rightarrow> real \<Rightarrow> fp \<Rightarrow> fp list \<Rightarrow> nat \<Rightarrow> bool" where
  "rotation_accurate F u t v i =
     (polar_accurate F u t \<and>
      cmul_accurate F u (v ! (2 * i), v ! (2 * i + 1)) (polar F (Num 1) t))"

section \<open>\<open>Transformer.forward\<close>\<close>

text \<open>
  A slice \<open>xs[a:b]\<close> of Python and of the tensor library: a negative bound counts from the
  end, and a bound outside the sequence is clamped to it; a slice never raises.
\<close>

definition slice_bound :: "nat \<Rightarrow> int \<Rightarrow> nat" where
  "slice_bound n i = (if i < 0 then nat (i + int n) else min (nat i) n)"

definition py_slice :: "'a list \<Rightarrow> int \<Rightarrow> int \<Rightarrow> 'a list" where
  "py_slice xs a b =
     (let lo = slice_bound (length xs) a; hi = slice_bound (length xs) b
      in take (hi - lo) (drop lo xs))"

text \<open>
  \<open>nn.Linear\<close> without bias on one vector: the products of the vector with the rows of
  the weight matrix, each accumulated from the left.  The rows of the weight have
  \<open>l_in_features\<close> entries.
\<close>

record Linear =
  l_in_features :: nat
  l_weight :: "fp list list"

definition Linear_forward :: "format \<Rightarrow> Linear \<Rightarrow> fp list \<Rightarrow> py_error + fp list" where
  "Linear_forward F L x =
     (if length x \<noteq> l_in_features L then Inl RuntimeError
      else Inr (map (\<lambda>row. fsum F (map (\<lambda>(a, b). fmul F a b) (zip x row))) (l_weight L)))"

text \<open>\<open>nn.Embedding\<close>: the row of the table at every token id; an id outside the table
  raises \<open>IndexError\<close>.\<close>

definition Embedding_forward :: "'a list \<Rightarrow> int list list \<Rightarrow> py_error + 'a list list" where
  "Embedding_forward table tokens =
     mapM (mapM (\<lambda>t. if 0 \<le> t \<and> t < int (length table) then Inr (table ! nat t)
                       else Inl IndexError)) tokens"

text \<open>
  The layers and the rows of the rotary table are parameters of the model of
  \<open>Transformer.forward\<close>: a layer is any function of the hidden state, the slice of the
  table and the mask, and \<open>forward\<close> only slices the table and hands the slice on.
\<close>

type_synonym 'r block =
  "fp list list list \<Rightarrow> 'r list \<Rightarrow> xreal list list option \<Rightarrow> py_error + fp list list list"

record 'r Transformer =
  tok_embeddings :: "fp list list"
  layers :: "'r block list"
  norm_f :: RMSNorm
  output_f :: Linear
  freqs_cis :: "'r list"

text \<open>\<open>_bsz, seqlen = tokens.shape\<close>; every row of \<open>tokens\<close> has \<open>seqlen\<close> entries.\<close>

definition seqlen_of :: "int list list \<Rightarrow> nat" where
  "seqlen_of tokens = (case tokens of [] \<Rightarrow> 0 | r # _ \<Rightarrow> length r)"

text \<open>The local variable \<open>freqs_cis\<close> of \<open>forward\<close>.\<close>

definition forward_freqs_cis :: "'r Transformer \<Rightarrow> int list list \<Rightarrow> int \<Rightarrow> 'r list" where
  "forward_freqs_cis T tokens start_pos =
     py_slice (freqs_cis T) start_pos (start_pos + int (seqlen_of tokens))"

fun run_layers ::
  "'r block list \<Rightarrow> fp list list list \<Rightarrow> 'r list \<Rightarrow> xreal list list option
     \<Rightarrow> py_error + fp list list list" where
  "run_layers [] h fc m = Inr h"
| "run_layers (layer # ls) h fc m = ebind (layer h fc m) (\<lambda>h'. run_layers ls h' fc m)"

definition Transformer_forward ::
  "format \<Rightarrow> 'r Transformer \<Rightarrow> int list list \<Rightarrow> int \<Rightarrow> py_error + fp list list list" where
  "Transformer_forward F T tokens start_pos =
     ebind (Embedding_forward (tok_embeddings T) tokens) (\<lambda>h.
     ebind (run_layers (layers T) h (forward_freqs_cis T tokens start_pos)
              (build_mask (seqlen_of tokens))) (\<lambda>h.
     ebind (mapM (mapM (RMSNorm_forward F (norm_f T))) h) (\<lambda>h.
     mapM (mapM (Linear_forward F (output_f T))) h)))"

text \<open>
  A model without layers, for concrete runs: one token, \<open>dim = 2\<close>, \<open>max_seq_len = 1\<close>,
  so that the rotary table has two rows, here named by their positions 0 and 1.
\<close>

definition tiny :: "nat Transformer" where
  "tiny =
     \<lparr>tok_embeddings = [[Num 0, Num 0]], layers = [],
      norm_f = \<lparr>rms_eps = Num (1 / 100000), rms_weight = [Num 1, Num 1]\<rparr>,
      output_f = \<lparr>l_in_features = 2, l_weight = [[Num 1, Num 1]]\<rparr>,
      freqs_cis = [0, 1]\<rparr>"

section \<open>Auxiliary notions\<close>

text \<open>A value that is \<open>+inf\<close> or a non-negative number.\<close>

definition nonneg_fp :: "fp \<Rightarrow> bool" where
  "nonneg_fp v = (v = Pinf \<or> (\<exists>y\<ge>0. v = Num y))"

text \<open>
  The temperature \<open>2.0 ** 130\<close>: a 64-bit float beyond the range of the 32-bit floats.
\<close>

definition hot :: fp where
  "hot = Num (2 ^ 130)"

text \<open>The rotation of one vector by one row of the table.\<close>

definition rot_vec :: "format \<Rightarrow> fp list \<Rightarrow> cfp list \<Rightarrow> fp list" where
  "rot_vec F h frow = from_pairs (map (\<lambda>(c, f). cmul F c f) (zip (to_pairs h) frow))"

section \<open>Properties of the formats\<close>

lemma round_to_in_range:
  "\<not> ovf F \<le> \<bar>x\<bar> \<Longrightarrow> round_to F k x = Num (if x = 0 then 0 else fl F k x)"
  unfolding round_to_def by (cases "0 \<le> x") auto

lemma exact64 [simp]: "fl (binary64 exact) k x = x" "ovf (binary64 exact) = 2 ^ 1024 - 2 ^ 970"
  by (simp_all add: binary64_def exact_def)

lemma exact32 [simp]: "fl (binary32 exact) k x = x" "ovf (binary32 exact) = 2 ^ 128 - 2 ^ 103"
  by (simp_all add: binary32_def exact_def)

lemma big32: "(100000::real) < 2 ^ 128 - 2 ^ 103"
proof -
  have e: "(2::real) ^ 103 * 2 ^ 25 = 2 ^ 128" by (simp add: power_add[symmetric])
  have "(1::real) \<le> 2 ^ 103" by simp
  moreover have "(100001::real) \<le> 2 ^ 25 - 1" by simp
  ultimately have "(100001::real) * 1 \<le> (2 ^ 25 - 1) * 2 ^ 103"
    by (intro mult_mono) simp_all
  then show ?thesis using e by (simp add: algebra_simps)
qed

lemma big: "(100000::real) < 2 ^ 1024 - 2 ^ 970"
proof -
  have "(2::real) ^ 970 * 2 ^ 54 = 2 ^ 1024" by (simp add: power_add[symmetric])
  moreover have "(1::real) \<le> 2 ^ 970" by simp
  moreover have "(100001::real) \<le> 2 ^ 54 - 1" by simp
  ultimately have "(100001::real) * 1 \<le> (2 ^ 54 - 1) * 2 ^ 970"
    by (intro mult_mono) simp_all
  then show ?thesis using \<open>(2::real) ^ 970 * 2 ^ 54 = 2 ^ 1024\<close> by (simp add: algebra_simps)
qed

lemma big2: "(2112::real) < (2 ^ 1024 - 2 ^ 970) * 3" "(704::real) < (2 ^ 1024 - 2 ^ 970) * 3"
  "(128::real) < 2 ^ 1024 - 2 ^ 970" "(4096::real) < 2 ^ 1024 - 2 ^ 970"
  "(4::real) < (2 ^ 1024 - 2 ^ 970) * 3" "(10::real) < 2 ^ 1024 - 2 ^ 970"
  using big by simp_all

lemma exact_op_small:
  "\<bar>x\<bar> \<le> 100000 \<Longrightarrow> exact_op (binary32 exact) k x"
  using big32 by (auto simp: exact_op_def round_to_def)

section \<open>Properties of the configuration\<close>

lemma find_multiple_zero: "find_multiple n 0 = Inl ZeroDivisionError"
  by (simp add: find_multiple_def)




text \<open>
  Claim C1, as amended.  \<open>ModelArgs.__post_init__\<close> validates no divisibility: whether
  construction raises, and with which error, is the same for every choice of \<open>n_heads\<close> and
  \<open>n_kv_heads\<close>; when it succeeds, the two fields are stored as given, \<open>n_kv_heads\<close>
  defaulting to \<open>n_heads\<close>, and the other fields do not depend on them.
\<close>

theorem post_init_ignores_heads:
  "(post_init F (a\<lparr>n_heads := h, n_kv_heads := kv\<rparr>) = Inl e \<longleftrightarrow> post_init F a = Inl e) \<and>
   (\<forall>args. post_init F a = Inr args \<longrightarrow>
      post_init F (a\<lparr>n_heads := h, n_kv_heads := kv\<rparr>) =
        Inr (args\<lparr>n_heads := h,
                  n_kv_heads := Some (case kv of None \<Rightarrow> h | Some v \<Rightarrow> v)\<rparr>))"
  by (auto simp: post_init_def ebind_def Let_def split: sum.splits option.splits)

text \<open>
  With \<open>dim = 10\<close>: the construction with the default heads succeeds, and so does the one
  with \<open>n_heads = 4\<close> and \<open>n_kv_heads = 3\<close>, with the same \<open>intermediate_size\<close>.
\<close>

theorem post_init_ignores_heads_witness:
  "post_init (binary64 exact) ((default_args (binary64 exact))\<lparr>dim := 10\<rparr>) =
     Inr ((default_args (binary64 exact))
            \<lparr>dim := 10, n_kv_heads := Some 32, ffn_dim_multiplier := Some (Num (4 / 3)),
             intermediate_size := Some 256\<rparr>) \<and>
   post_init (binary64 exact)
       ((default_args (binary64 exact))\<lparr>dim := 10, n_heads := 4, n_kv_heads := Some 3\<rparr>) =
     Inr ((default_args (binary64 exact))
            \<lparr>dim := 10, n_heads := 4, n_kv_heads := Some 3,
             ffn_dim_multiplier := Some (Num (4 / 3)), intermediate_size := Some 256\<rparr>)"
proof -
  let ?F = "binary64 exact"
  let ?a = "(default_args ?F)\<lparr>dim := 10\<rparr>"
  let ?X = "(default_args ?F)\<lparr>dim := 10, n_kv_heads := Some 32,
              ffn_dim_multiplier := Some (Num (4 / 3)), intermediate_size := Some 256\<rparr>"
  have p: "post_init ?F ?a = Inr ?X"
    using big
    by (simp add: post_init_def default_args_def intermediate_size_raw_def
        py_float_def py_truediv_def round_to_def ebind_def find_multiple_def Let_def)
  from post_init_ignores_heads[where F = ?F and a = ?a and h = 4 and kv = "Some 3",
      THEN conjunct2, rule_format, OF p]
  have "post_init ?F (?a\<lparr>n_heads := 4, n_kv_heads := Some 3\<rparr>) =
          Inr (?X\<lparr>n_heads := 4, n_kv_heads := Some 3\<rparr>)"
    by simp
  then show ?thesis using p by (simp add: default_args_def)
qed

text \<open>
  Claim C1 as stated fails: with \<open>dim = 10\<close>, \<open>n_heads = 4\<close> and \<open>n_kv_heads = 3\<close>, where
  neither divisibility holds, the configuration is constructed without an error.
\<close>

theorem post_init_accepts_indivisible:
  "dim (bad_args (binary64 exact)) mod n_heads (bad_args (binary64 exact)) \<noteq> 0 \<and>
   n_kv_heads (bad_args (binary64 exact)) = Some 3 \<and>
   n_heads (bad_args (binary64 exact)) mod 3 \<noteq> 0 \<and>
   post_init (binary64 exact) (bad_args (binary64 exact)) =
     Inr ((bad_args (binary64 exact))
            \<lparr>ffn_dim_multiplier := Some (Num (4 / 3)), intermediate_size := Some 256\<rparr>)"
  using big
  by (simp add: post_init_def bad_args_def default_args_def intermediate_size_raw_def
      py_float_def py_truediv_def round_to_def ebind_def find_multiple_def Let_def)

text \<open>
  \<open>Attention.__init__\<close> accepts that configuration as well: the floor divisions give
  \<open>n_rep = 1\<close> and \<open>head_dim = 2\<close>, and the four linear maps are allocated.  What
  \<open>__post_init__\<close> does raise comes from the arithmetic of \<open>intermediate_size\<close>: a
  multiplier whose product overflows makes \<open>int\<close> raise \<open>OverflowError\<close>, a NaN makes it
  raise \<open>ValueError\<close>, and \<open>multiple_of = 0\<close> makes \<open>find_multiple\<close> raise
  \<open>ZeroDivisionError\<close>.
\<close>

lemma Attention_init_bad_args:
  "Attention_init ((bad_args F)\<lparr>ffn_dim_multiplier := Some m, intermediate_size := Some 256\<rparr>) =
     Inr \<lparr>att_n_kv_heads = 3, att_n_heads_q = 4, att_n_rep = 1, att_head_dim = 2,
          att_wq = \<lparr>in_features = 10, out_features = 8\<rparr>,
          att_wk = \<lparr>in_features = 10, out_features = 6\<rparr>,
          att_wv = \<lparr>in_features = 10, out_features = 6\<rparr>,
          att_wo = \<lparr>in_features = 8, out_features = 10\<rparr>\<rparr>"
  by (simp add: Attention_init_def Linear_init_def bad_args_def default_args_def Let_def
      ebind_def)

lemma post_init_overflow:
  "post_init (binary64 exact)
     ((default_args (binary64 exact))\<lparr>ffn_dim_multiplier := Some (Num (10 ^ 308))\<rparr>) =
     Inl OverflowError"
proof -
  have "(2::real) ^ 1024 \<le> 2 * 10 ^ 308" by simp
  moreover have "(0::real) \<le> 2 ^ 970" by simp
  ultimately have o: "(2::real) ^ 1024 - 2 ^ 970 \<le> 2 * 10 ^ 308" by linarith
  have m: "fmul (binary64 exact) (Num 2) (Num (10 ^ 308)) = Pinf"
    using o by (simp add: round_to_def)
  show ?thesis
    using big
    by (simp add: post_init_def default_args_def intermediate_size_raw_def m
        py_float_def round_to_def ebind_def Let_def)
qed

lemma post_init_nan:
  "post_init F ((default_args F)\<lparr>dim := 0, ffn_dim_multiplier := Some Nan\<rparr>) =
     (if ovf F \<le> 0 then Inl OverflowError else Inl ValueError)"
  by (simp add: post_init_def default_args_def intermediate_size_raw_def
      py_float_def round_to_def ebind_def Let_def)

lemma post_init_zero_multiple:
  "multiple_of a = 0 \<Longrightarrow> \<exists>e. post_init F a = Inl e"
  by (auto simp: post_init_def ebind_def Let_def find_multiple_def split: sum.splits)











section \<open>Properties of the tensor helpers\<close>

lemma mapM_Inr: "mapM (\<lambda>x. Inr (g x)) xs = Inr (map g xs)"
  by (induction xs) (simp_all add: ebind_def)

lemma mapM_Inr_prod: "mapM (\<lambda>(x, y). Inr (g x y)) ps = Inr (map (\<lambda>(x, y). g x y) ps)"
  by (induction ps) (auto simp: ebind_def)

section \<open>The causal mask\<close>

lemma triu_nth:
  assumes "i < length m" "j < length (m ! i)"
  shows "triu m d ! i ! j = (if d \<le> int j - int i then m ! i ! j else Fin 0)"
  using assms by (simp add: triu_def nth_enumerate_eq)

text \<open>
  Claim C4.  For every \<open>seqlen \<ge> 2\<close> the mask built by \<open>Transformer.forward\<close> is a
  \<open>seqlen \<times> seqlen\<close> matrix with \<open>-inf\<close> at every entry \<open>i < j\<close> and \<open>0\<close> at every entry
  \<open>i \<ge> j\<close>; for \<open>seqlen = 1\<close> no mask is built (\<open>None\<close>).
\<close>

theorem causal_mask_entries:
  "(2 \<le> seqlen \<longrightarrow>
      (\<exists>m. build_mask seqlen = Some m \<and> length m = seqlen \<and>
           (\<forall>i < seqlen. length (m ! i) = seqlen \<and>
              (\<forall>j < seqlen. m ! i ! j = (if i < j then NegInf else Fin 0))))) \<and>
   build_mask 1 = None"
proof -
  have one: "build_mask 1 = None" by (simp add: build_mask_def)
  have many: "\<exists>m. build_mask seqlen = Some m \<and> length m = seqlen \<and>
           (\<forall>i < seqlen. length (m ! i) = seqlen \<and>
              (\<forall>j < seqlen. m ! i ! j = (if i < j then NegInf else Fin 0)))"
    if s: "2 \<le> seqlen"
  proof -
    let ?m = "triu (full seqlen seqlen NegInf) 1"
    have b: "build_mask seqlen = Some ?m" using s by (simp add: build_mask_def)
    have l: "length ?m = seqlen" by (simp add: triu_def full_def)
    have r: "\<And>i. i < seqlen \<Longrightarrow> length (?m ! i) = seqlen"
      by (simp add: triu_def full_def nth_enumerate_eq)
    have e: "\<And>i j. i < seqlen \<Longrightarrow> j < seqlen \<Longrightarrow>
               ?m ! i ! j = (if i < j then NegInf else Fin 0)"
      by (subst triu_nth) (auto simp: full_def)
    show ?thesis using b l r e by blast
  qed
  show ?thesis using one many by blast
qed

theorem causal_mask_entries_witness:
  "(2::nat) \<le> 3 \<and>
   build_mask 3 =
     Some [[Fin 0, NegInf, NegInf], [Fin 0, Fin 0, NegInf], [Fin 0, Fin 0, Fin 0]] \<and>
   (\<exists>m. build_mask 3 = Some m \<and> m ! 0 ! 2 = NegInf \<and> m ! 1 ! 1 = Fin 0 \<and> m ! 2 ! 0 = Fin 0)"
proof -
  have v: "build_mask 3 =
     Some [[Fin 0, NegInf, NegInf], [Fin 0, Fin 0, NegInf], [Fin 0, Fin 0, Fin 0]]"
    by (simp add: build_mask_def triu_def full_def enumerate_eq_zip upt_rec numeral_3_eq_3)
  from causal_mask_entries[of 3] obtain m where
    m: "build_mask 3 = Some m"
       "\<forall>i < 3. length (m ! i) = 3 \<and> (\<forall>j < 3. m ! i ! j = (if i < j then NegInf else Fin 0))"
    by auto
  have "m ! 0 ! 2 = NegInf" "m ! 1 ! 1 = Fin 0" "m ! 2 ! 0 = Fin 0"
    using m(2) by auto
  with m(1) v show ?thesis by auto
qed

section \<open>Grouped-query expansion\<close>

lemma concat_replicate_length: "length (concat (map (replicate n) xs)) = length xs * n"
  by (induction xs) simp_all

lemma concat_replicate_nth:
  "h < length xs * n \<Longrightarrow> concat (map (replicate n) xs) ! h = xs ! (h div n)"
proof (induction xs arbitrary: h)
  case Nil
  then show ?case by simp
next
  case (Cons a xs)
  show ?case
  proof (cases "h < n")
    case True
    then show ?thesis by (simp add: nth_append)
  next
    case False
    then have "h - n < length xs * n" using Cons.prems by simp
    moreover have "0 < n" using Cons.prems by (cases n) simp_all
    ultimately show ?thesis using Cons.IH[of "h - n"] False
      by (simp add: nth_append le_div_geq)
  qed
qed

text \<open>
  Claim C5.  For every tensor \<open>[batch, seq, n_kv_heads, head_dim]\<close> and every
  \<open>n_rep \<ge> 1\<close>, \<open>repeat_kv\<close> keeps the batch and sequence axes, returns
  \<open>n_kv_heads * n_rep\<close> heads, and output head \<open>h\<close> is input head \<open>h div n_rep\<close>; with
  \<open>n_rep = 1\<close> the result is the input.
\<close>

theorem repeat_kv_heads:
  assumes "1 \<le> n_rep"
  shows "length (repeat_kv x n_rep) = length x \<and>
         (\<forall>b < length x. length (repeat_kv x n_rep ! b) = length (x ! b) \<and>
            (\<forall>s < length (x ! b).
               length (repeat_kv x n_rep ! b ! s) = length (x ! b ! s) * n_rep \<and>
               (\<forall>h < length (x ! b ! s) * n_rep.
                  repeat_kv x n_rep ! b ! s ! h = x ! b ! s ! (h div n_rep)))) \<and>
         repeat_kv x 1 = x"
  by (auto simp: repeat_kv_def concat_replicate_length concat_replicate_nth)

text \<open>The specification's example: with \<open>n_rep = 3\<close>, output head 7 is kv-head 2.\<close>

theorem repeat_kv_heads_witness:
  "(1::nat) \<le> 3 \<and>
   repeat_kv [[[[10, 11], [20, 21], [30, 31 :: real]]]] 3 ! 0 ! 0 ! 7 = [30, 31] \<and>
   [[[[10, 11], [20, 21], [30, 31 :: real]]]] ! 0 ! 0 ! 2 = [30, 31] \<and>
   length (repeat_kv [[[[10, 11], [20, 21], [30, 31 :: real]]]] 3 ! 0 ! 0) = 9"
  using repeat_kv_heads[of 3 "[[[[10, 11], [20, 21], [30, 31 :: real]]]]"]
  by simp

section \<open>\<open>RMSNorm\<close>\<close>

lemma fsum_exact:
  assumes "\<forall>n \<le> length ys. exact_op F KAdd (sum_list (take n ys))"
  shows "fsum F (map Num ys) = Num (sum_list ys)"
  using assms
proof (induction ys rule: rev_induct)
  case Nil
  show ?case by (simp add: fsum_def)
next
  case (snoc y ys)
  have "\<forall>n \<le> length ys. exact_op F KAdd (sum_list (take n ys))"
  proof (intro allI impI)
    fix n assume "n \<le> length ys"
    then show "exact_op F KAdd (sum_list (take n ys))"
      using snoc.prems[rule_format, of n] by simp
  qed
  then have IH: "fsum F (map Num ys) = Num (sum_list ys)" by (rule snoc.IH)
  have "exact_op F KAdd (sum_list (ys @ [y]))"
    using snoc.prems[rule_format, of "Suc (length ys)"] by simp
  then show ?case using IH by (simp add: fsum_def exact_op_def)
qed

lemma RMSNorm_forward_exact:
  assumes w: "rms_weight n = map Num ws" and len: "length ws = length xs"
    and eps: "cast F (rms_eps n) = Num e" and ex: "RMSNorm_exact F e xs ws"
  shows "RMSNorm_forward F n (map Num xs) = Inr (map Num (rms_formula e xs ws))"
proof -
  let ?sq = "map (\<lambda>v. v * v) xs"
  let ?ms = "sum_list ?sq / real (length xs)"
  let ?r = "1 / sqrt (?ms + e)"
  from ex have ne: "xs \<noteq> []"
    and sq: "\<forall>v\<in>set xs. exact_op F KMul (v * v)"
    and ps: "\<forall>n\<in>set [0..<Suc (length xs)]. exact_op F KAdd (sum_list (take n ?sq))"
    and cv: "exact_op F KConv (real (length xs))"
    and dv: "exact_op F KDiv ?ms"
    and ad: "exact_op F KAdd (?ms + e)"
    and pos: "0 < ?ms + e"
    and rs: "exact_op F KRsqrt ?r"
    and m1: "\<forall>v\<in>set xs. exact_op F KMul (v * ?r)"
    and m2: "\<forall>(v, w)\<in>set (zip xs ws). exact_op F KMul (v * ?r * w)"
    unfolding RMSNorm_exact_def Let_def list_all_iff by blast+
  have squares: "map (\<lambda>v. fmul F v v) (map Num xs) = map Num ?sq"
    using sq by (simp add: exact_op_def)
  have "\<forall>n \<le> length ?sq. exact_op F KAdd (sum_list (take n ?sq))"
  proof (intro allI impI)
    fix k assume "k \<le> length ?sq"
    then have "k \<in> set [0..<Suc (length xs)]" by auto
    with ps show "exact_op F KAdd (sum_list (take k ?sq))" by blast
  qed
  then have sum: "fsum F (map Num ?sq) = Num (sum_list ?sq)" by (rule fsum_exact)
  have D: "real (length xs) \<noteq> 0" using ne by simp
  have mean: "fdiv F (Num (sum_list ?sq)) (round_to F KConv (real (length xs))) = Num ?ms"
    using cv dv D by (simp add: exact_op_def)
  have r: "frsqrt F (fadd F (Num ?ms) (Num e)) = Num ?r"
    using ad pos rs by (simp add: exact_op_def)
  have norm: "RMSNorm_norm F n (map Num xs) = map Num (map (\<lambda>v. v * ?r) xs)"
    unfolding RMSNorm_norm_def Let_def squares sum length_map mean eps r
    using m1 by (simp add: exact_op_def)
  have prod: "map2 (\<lambda>a b. fmul F a b) (map Num (map (\<lambda>v. v * ?r) xs)) (map Num ws) =
                map Num (map (\<lambda>(v, w). v * ?r * w) (zip xs ws))"
    using m2 by (simp add: zip_map_map exact_op_def split_beta)
  have "RMSNorm_forward F n (map Num xs) =
          Inr (map2 (\<lambda>a b. fmul F a b) (map Num (map (\<lambda>v. v * ?r) xs)) (map Num ws))"
    unfolding RMSNorm_forward_def norm w bc_zipM_def using len
    by (simp add: mapM_Inr_prod)
  also have "\<dots> = Inr (map Num (rms_formula e xs ws))"
    unfolding prod rms_formula_def by (simp add: split_beta field_simps)
  finally show ?thesis .
qed

lemma round_to_nn:
  assumes "0 < ovf F" "rounds_nonneg F" "0 \<le> x"
  shows "nonneg_fp (round_to F k x)"
  using assms by (auto simp: round_to_def nonneg_fp_def rounds_nonneg_def)

lemma fadd_nn:
  assumes "0 < ovf F" "rounds_nonneg F" "nonneg_fp a" "nonneg_fp b"
  shows "nonneg_fp (fadd F a b)" "a = Pinf \<or> b = Pinf \<Longrightarrow> fadd F a b = Pinf"
proof -
  show "nonneg_fp (fadd F a b)"
  proof (cases "a = Pinf \<or> b = Pinf")
    case True
    then show ?thesis using assms(3,4) by (auto simp: nonneg_fp_def)
  next
    case False
    then obtain x y where "a = Num x" "b = Num y" "0 \<le> x" "0 \<le> y"
      using assms(3,4) by (auto simp: nonneg_fp_def)
    then show ?thesis using round_to_nn[OF assms(1,2), of "x + y" KAdd] by simp
  qed
  show "a = Pinf \<or> b = Pinf \<Longrightarrow> fadd F a b = Pinf"
    using assms(3,4) by (auto simp: nonneg_fp_def)
qed

lemma foldl_fadd_nn:
  assumes "0 < ovf F" "rounds_nonneg F"
  shows "nonneg_fp acc \<Longrightarrow> \<forall>v\<in>set vs. nonneg_fp v \<Longrightarrow>
         nonneg_fp (foldl (fadd F) acc vs) \<and>
         (acc = Pinf \<or> Pinf \<in> set vs \<longrightarrow> foldl (fadd F) acc vs = Pinf)"
proof (induction vs arbitrary: acc)
  case Nil
  then show ?case by simp
next
  case (Cons v vs)
  have v: "nonneg_fp v" using Cons.prems by simp
  have 1: "nonneg_fp (fadd F acc v)" using fadd_nn(1)[OF assms Cons.prems(1) v] .
  have 2: "acc = Pinf \<or> v = Pinf \<Longrightarrow> fadd F acc v = Pinf"
    using fadd_nn(2)[OF assms Cons.prems(1) v] .
  from Cons.IH[OF 1] Cons.prems(2)
  have IH: "nonneg_fp (foldl (fadd F) (fadd F acc v) vs)"
    "fadd F acc v = Pinf \<or> Pinf \<in> set vs \<Longrightarrow> foldl (fadd F) (fadd F acc v) vs = Pinf"
    by simp_all
  show ?case using IH 2 by auto
qed

lemma RMSNorm_forward_overflow:
  assumes w: "rms_weight n = map Num ws" and len: "length ws = length xs"
    and eps: "rms_eps n = Num e" "- ovf F < e"
    and F: "0 < ovf F" "rounds_nonneg F"
    and D: "real (length xs) < ovf F"
    and big: "\<exists>v\<in>set xs. ovf F \<le> v * v"
  shows "RMSNorm_forward F n (map Num xs) = Inr (replicate (length xs) (Num 0))"
proof -
  let ?sq = "map (\<lambda>v. fmul F v v) (map Num xs)"
  have all: "\<forall>v\<in>set ?sq. nonneg_fp v"
    using round_to_nn[OF F] by auto
  from big obtain v where v: "v \<in> set xs" "ovf F \<le> v * v" by blast
  then have "round_to F KMul (v * v) = Pinf" using F(1) by (auto simp: round_to_def)
  then have "Pinf \<in> set ?sq" using v(1) by (auto simp: image_iff intro!: bexI[of _ v])
  moreover have "nonneg_fp (Num 0)" by (simp add: nonneg_fp_def)
  ultimately have sum: "fsum F ?sq = Pinf"
    unfolding fsum_def using foldl_fadd_nn[OF F, of "Num 0" ?sq] all by blast
  have ne: "xs \<noteq> []" using v(1) by auto
  have "nonneg_fp (round_to F KConv (real (length xs)))" by (rule round_to_nn[OF F]) simp
  moreover have "round_to F KConv (real (length xs)) \<noteq> Pinf"
    using D ne F(1) by (auto simp: round_to_def)
  ultimately obtain y where y: "round_to F KConv (real (length xs)) = Num y" "0 \<le> y"
    by (auto simp: nonneg_fp_def)
  have mean: "fdiv F Pinf (round_to F KConv (real (length xs))) = Pinf"
    using y by simp
  have "cast F (Num e) = Pinf \<or> (\<exists>z. cast F (Num e) = Num z)"
    using eps(2) by (auto simp: round_to_def)
  then have add: "fadd F Pinf (cast F (Num e)) = Pinf" by auto
  have norm: "RMSNorm_norm F n (map Num xs) = replicate (length xs) (Num 0)"
    unfolding RMSNorm_norm_def Let_def sum length_map mean eps(1) add
    by (simp add: round_to_def map_replicate_const comp_def)
  show ?thesis
    unfolding RMSNorm_forward_def norm w bc_zipM_def using len
    by (simp add: mapM_Inr_prod zip_replicate1 map_replicate_const comp_def round_to_def
        zip_map2 split_beta)
qed

text \<open>
  Claim C7, as amended.  For an input vector \<open>x\<close> of finite numbers and a scale vector of
  the same dimension, \<open>RMSNorm.forward\<close> returns, entry by entry,
  \<open>weight_i * x_i / sqrt(mean_j(x_j^2) + eps)\<close>, with the population mean of the squares and
  no mean subtraction, whenever none of its operations rounds or overflows (\<open>eps\<close> being
  the value of the 32-bit float that the configured \<open>eps\<close> is converted to).  When the
  square of an entry overflows, the result is zero in every position instead: the sum of
  the squares is \<open>+inf\<close> and \<open>rsqrt\<close> of it is 0.
\<close>

theorem RMSNorm_forward_formula:
  assumes "rms_weight n = map Num ws" "length ws = length xs"
  shows "(\<forall>e. cast F (rms_eps n) = Num e \<longrightarrow> RMSNorm_exact F e xs ws \<longrightarrow>
            RMSNorm_forward F n (map Num xs) = Inr (map Num (rms_formula e xs ws))) \<and>
         (\<forall>e. rms_eps n = Num e \<longrightarrow> - ovf F < e \<longrightarrow> 0 < ovf F \<longrightarrow> rounds_nonneg F \<longrightarrow>
            real (length xs) < ovf F \<longrightarrow> (\<exists>v\<in>set xs. ovf F \<le> v * v) \<longrightarrow>
            RMSNorm_forward F n (map Num xs) = Inr (replicate (length xs) (Num 0)))"
  using RMSNorm_forward_exact[OF assms] RMSNorm_forward_overflow[OF assms] by blast

text \<open>
  With \<open>x = [1, -1]\<close>, \<open>weight = [2, 4]\<close> and \<open>eps = 3\<close> nothing is rounded: the mean of the
  squares is 1, the radicand 4, and the result \<open>[1, -2]\<close>.  With \<open>x = [2^70, 1]\<close> the
  first square overflows and the result is \<open>[0, 0]\<close>.
\<close>

lemma small_exact: "RMSNorm_exact (binary32 exact) 3 [1, - 1] [2, 4]"
  by (simp add: RMSNorm_exact_def Let_def exact_op_small)

lemma small_formula: "rms_formula 3 [1, - 1] [2, 4] = [1, - 2]"
  by (simp add: rms_formula_def)

theorem RMSNorm_forward_formula_witness:
  "RMSNorm_exact (binary32 exact) 3 [1, - 1] [2, 4] \<and>
   RMSNorm_forward (binary32 exact) \<lparr>rms_eps = Num 3, rms_weight = [Num 2, Num 4]\<rparr>
     [Num 1, Num (- 1)] = Inr [Num 1, Num (- 2)] \<and>
   rounds_nonneg (binary32 exact) \<and>
   ovf (binary32 exact) \<le> 2 ^ 70 * 2 ^ 70 \<and>
   RMSNorm_forward (binary32 exact) \<lparr>rms_eps = Num 3, rms_weight = [Num 2, Num 4]\<rparr>
     [Num (2 ^ 70), Num 1] = Inr [Num 0, Num 0]"
proof -
  let ?F = "binary32 exact"
  let ?n = "\<lparr>rms_eps = Num 3, rms_weight = [Num 2, Num 4]\<rparr>"
  have w: "rms_weight ?n = map Num [2, 4]" by simp
  have c: "cast ?F (rms_eps ?n) = Num 3" using big32 by (simp add: round_to_def)
  have l: "length [2, 4 :: real] = length [1, - 1 :: real]"
    "length [2, 4 :: real] = length [2 ^ 70, 1 :: real]" by simp_all
  have a: "RMSNorm_forward ?F ?n (map Num [1, - 1]) = Inr (map Num (rms_formula 3 [1, - 1] [2, 4]))"
    using RMSNorm_forward_formula[OF w l(1), of ?F] c small_exact by blast
  have r: "rounds_nonneg ?F" by (simp add: rounds_nonneg_def)
  have o: "ovf ?F \<le> 2 ^ 70 * 2 ^ 70" by simp
  have p: "0 < ovf ?F" "- ovf ?F < 3" "real (length [2 ^ 70, 1 :: real]) < ovf ?F"
    using big32 by simp_all
  have e: "\<exists>v\<in>set [2 ^ 70, 1 :: real]. ovf ?F \<le> v * v" using o by simp
  have b: "RMSNorm_forward ?F ?n (map Num [2 ^ 70, 1]) =
             Inr (replicate (length [2 ^ 70, 1 :: real]) (Num 0))"
    using RMSNorm_forward_formula[OF w l(2), of ?F, THEN conjunct2, rule_format, of 3] r p e
    by simp
  have b': "RMSNorm_forward ?F ?n [Num (2 ^ 70), Num 1] = Inr [Num 0, Num 0]"
    using b by (simp add: numeral_2_eq_2)
  from a have a': "RMSNorm_forward ?F ?n [Num 1, Num (- 1)] = Inr [Num 1, Num (- 2)]"
    by (simp add: small_formula)
  show ?thesis using small_exact a' r o b' by blast
qed

text \<open>
  Claim C7 as stated fails where a square overflows: for \<open>x = [2^70, 2^70]\<close>,
  \<open>weight = [1, 1]\<close> and \<open>eps = 0\<close> the formula gives \<open>[1, 1]\<close> and \<open>RMSNorm.forward\<close>
  returns \<open>[0, 0]\<close>.
\<close>

theorem RMSNorm_overflow_zero:
  "RMSNorm_forward (binary32 exact) \<lparr>rms_eps = Num 0, rms_weight = [Num 1, Num 1]\<rparr>
     [Num (2 ^ 70), Num (2 ^ 70)] = Inr [Num 0, Num 0] \<and>
   rms_formula 0 [2 ^ 70, 2 ^ 70] [1, 1] = [1, 1]"
proof -
  have s: "sqrt ((2::real) ^ 140) = 2 ^ 70"
    using real_sqrt_abs[of "(2::real) ^ 70"] by (simp add: power_mult[symmetric])
  have f: "rms_formula 0 [2 ^ 70, 2 ^ 70] [1, 1] = [1, 1]"
    unfolding rms_formula_def using s by (simp add: power_add[symmetric])
  have o: "(2::real) ^ 128 - 2 ^ 103 \<le> 2 ^ 70 * 2 ^ 70" by simp
  have sq: "fmul (binary32 exact) (Num (2 ^ 70)) (Num (2 ^ 70)) = Pinf"
    using o by (simp add: round_to_def)
  have "RMSNorm_norm (binary32 exact) \<lparr>rms_eps = Num 0, rms_weight = [Num 1, Num 1]\<rparr>
          [Num (2 ^ 70), Num (2 ^ 70)] = [Num 0, Num 0]"
    unfolding RMSNorm_norm_def Let_def fsum_def
    using big32 by (simp add: sq round_to_def)
  then have "RMSNorm_forward (binary32 exact) \<lparr>rms_eps = Num 0, rms_weight = [Num 1, Num 1]\<rparr>
     [Num (2 ^ 70), Num (2 ^ 70)] = Inr [Num 0, Num 0]"
    unfolding RMSNorm_forward_def by (simp add: bc_zipM_def ebind_def round_to_def)
  with f show ?thesis by blast
qed

section \<open>Rotary position encoding\<close>

lemma abs_le_4:
  fixes c :: real
  assumes "0 \<le> u" "u \<le> 1" "\<bar>c - t\<bar> \<le> 3 * u" "\<bar>t\<bar> \<le> 1"
  shows "\<bar>c\<bar> \<le> 4"
  using assms by linarith

lemma prod_err:
  fixes a c p u :: real
  assumes u: "0 \<le> u" "u \<le> 1" and c: "\<bar>c\<bar> \<le> 4" and p: "\<bar>p - a * c\<bar> \<le> u * \<bar>a * c\<bar>"
  shows "\<bar>p - a * c\<bar> \<le> 4 * u * \<bar>a\<bar>" "\<bar>p\<bar> \<le> 8 * \<bar>a\<bar>"
proof -
  have ac: "\<bar>a * c\<bar> \<le> 4 * \<bar>a\<bar>"
    using mult_left_mono[OF c, of "\<bar>a\<bar>"] by (simp add: abs_mult mult.commute)
  have "u * \<bar>a * c\<bar> \<le> u * (4 * \<bar>a\<bar>)" by (rule mult_left_mono[OF ac u(1)])
  with p show 1: "\<bar>p - a * c\<bar> \<le> 4 * u * \<bar>a\<bar>" by simp
  have "4 * u * \<bar>a\<bar> \<le> 4 * 1 * \<bar>a\<bar>"
    by (intro mult_right_mono mult_left_mono u) simp_all
  with 1 have "\<bar>p - a * c\<bar> \<le> 4 * \<bar>a\<bar>" by simp
  with ac show "\<bar>p\<bar> \<le> 8 * \<bar>a\<bar>" by linarith
qed

lemma sum_err:
  fixes r p q u A B :: real
  assumes u: "0 \<le> u" and p: "\<bar>p\<bar> \<le> 8 * A" and q: "\<bar>q\<bar> \<le> 8 * B"
    and r: "\<bar>r - (p + q)\<bar> \<le> u * \<bar>p + q\<bar>"
  shows "\<bar>r - (p + q)\<bar> \<le> 8 * u * (A + B)"
proof -
  have "\<bar>p + q\<bar> \<le> 8 * (A + B)" using p q by (simp add: algebra_simps)
  then have "u * \<bar>p + q\<bar> \<le> u * (8 * (A + B))" by (rule mult_left_mono[OF _ u])
  also have "\<dots> = 8 * u * (A + B)" by simp
  finally show ?thesis using r by linarith
qed

lemma entry_err:
  fixes a c t u :: real
  assumes "\<bar>c - t\<bar> \<le> 3 * u"
  shows "\<bar>a * (c - t)\<bar> \<le> 3 * u * \<bar>a\<bar>"
proof -
  have "\<bar>a\<bar> * \<bar>c - t\<bar> \<le> \<bar>a\<bar> * (3 * u)" by (rule mult_left_mono[OF assms]) simp
  then show ?thesis by (simp add: abs_mult mult.commute)
qed

lemma rotation_error:
  fixes a b c s th u p1 p2 p3 p4 re im :: real
  assumes u: "0 \<le> u" "u \<le> 1"
    and c: "\<bar>c - cos th\<bar> \<le> 3 * u" and s: "\<bar>s - sin th\<bar> \<le> 3 * u"
    and p1: "\<bar>p1 - a * c\<bar> \<le> u * \<bar>a * c\<bar>" and p2: "\<bar>p2 - b * s\<bar> \<le> u * \<bar>b * s\<bar>"
    and p3: "\<bar>p3 - a * s\<bar> \<le> u * \<bar>a * s\<bar>" and p4: "\<bar>p4 - b * c\<bar> \<le> u * \<bar>b * c\<bar>"
    and re: "\<bar>re - (p1 - p2)\<bar> \<le> u * \<bar>p1 - p2\<bar>"
    and im: "\<bar>im - (p3 + p4)\<bar> \<le> u * \<bar>p3 + p4\<bar>"
  shows "\<bar>sqrt (re\<^sup>2 + im\<^sup>2) - sqrt (a\<^sup>2 + b\<^sup>2)\<bar> \<le> 60 * u * sqrt (a\<^sup>2 + b\<^sup>2)"
proof -
  have c4: "\<bar>c\<bar> \<le> 4" by (rule abs_le_4[OF u c]) simp
  have s4: "\<bar>s\<bar> \<le> 4" by (rule abs_le_4[OF u s]) simp
  note P1 = prod_err[OF u c4 p1] and P2 = prod_err[OF u s4 p2]
    and P3 = prod_err[OF u s4 p3] and P4 = prod_err[OF u c4 p4]
  have m2: "\<bar>- p2\<bar> \<le> 8 * \<bar>b\<bar>" using P2(2) by simp
  have re': "\<bar>re - (p1 + - p2)\<bar> \<le> u * \<bar>p1 + - p2\<bar>" using re by simp
  have R: "\<bar>re - (p1 - p2)\<bar> \<le> 8 * u * (\<bar>a\<bar> + \<bar>b\<bar>)"
    using sum_err[OF u(1) P1(2) m2 re'] by simp
  have I: "\<bar>im - (p3 + p4)\<bar> \<le> 8 * u * (\<bar>a\<bar> + \<bar>b\<bar>)"
    using sum_err[OF u(1) P3(2) P4(2) im] .
  note Ec = entry_err[OF c, of a] entry_err[OF c, of b]
    and Es = entry_err[OF s, of a] entry_err[OF s, of b]
  have "re - (a * cos th - b * sin th) =
          (re - (p1 - p2)) + (p1 - a * c) - (p2 - b * s) + a * (c - cos th) - b * (s - sin th)"
    by (simp add: algebra_simps)
  then have Ere: "\<bar>re - (a * cos th - b * sin th)\<bar> \<le> 15 * u * (\<bar>a\<bar> + \<bar>b\<bar>)"
    using R P1(1) P2(1) Ec(1) Es(2) by (simp add: algebra_simps) linarith
  have "im - (a * sin th + b * cos th) =
          (im - (p3 + p4)) + (p3 - a * s) + (p4 - b * c) + a * (s - sin th) + b * (c - cos th)"
    by (simp add: algebra_simps)
  then have Eim: "\<bar>im - (a * sin th + b * cos th)\<bar> \<le> 15 * u * (\<bar>a\<bar> + \<bar>b\<bar>)"
    using I P3(1) P4(1) Es(1) Ec(2) by (simp add: algebra_simps) linarith
  let ?z = "Complex a b" and ?w = "Complex re im"
  let ?zr = "Complex a b * cis th"
  have zr: "?zr = Complex (a * cos th - b * sin th) (a * sin th + b * cos th)"
    by (simp add: complex_eq_iff algebra_simps)
  have n: "cmod ?zr = cmod ?z" by (simp add: norm_mult)
  have "\<bar>cmod ?w - cmod ?zr\<bar> \<le> cmod (?w - ?zr)" by (rule norm_triangle_ineq3)
  also have "\<dots> \<le> \<bar>Re (?w - ?zr)\<bar> + \<bar>Im (?w - ?zr)\<bar>" by (rule cmod_le)
  also have "\<dots> \<le> 15 * u * (\<bar>a\<bar> + \<bar>b\<bar>) + 15 * u * (\<bar>a\<bar> + \<bar>b\<bar>)"
    unfolding zr using Ere Eim by simp
  also have "\<dots> = 30 * u * (\<bar>a\<bar> + \<bar>b\<bar>)" by simp
  also have "\<dots> \<le> 30 * u * (2 * cmod ?z)"
  proof (rule mult_left_mono)
    have "\<bar>a\<bar> \<le> cmod ?z" "\<bar>b\<bar> \<le> cmod ?z"
      using abs_Re_le_cmod[of ?z] abs_Im_le_cmod[of ?z] by simp_all
    then show "\<bar>a\<bar> + \<bar>b\<bar> \<le> 2 * cmod ?z" by linarith
    show "0 \<le> 30 * u" using u by simp
  qed
  finally have "\<bar>cmod ?w - cmod ?z\<bar> \<le> 60 * u * cmod ?z" unfolding n by simp
  then show ?thesis by (simp add: cmod_def)
qed

lemma to_pairs_length: "length (to_pairs v) = length v div 2"
  by (induction v rule: to_pairs.induct) simp_all

lemma to_pairs_nth:
  "2 * i + 1 < length v \<Longrightarrow> to_pairs v ! i = (v ! (2 * i), v ! (2 * i + 1))"
proof (induction v arbitrary: i rule: to_pairs.induct)
  case (1 a b r)
  then show ?case by (cases i) simp_all
qed simp_all

lemma from_pairs_length: "length (from_pairs cs) = 2 * length cs"
  by (induction cs) (auto simp: from_pairs_def)

lemma from_pairs_nth:
  "i < length cs \<Longrightarrow>
     from_pairs cs ! (2 * i) = fst (cs ! i) \<and> from_pairs cs ! (2 * i + 1) = snd (cs ! i)"
proof (induction cs arbitrary: i)
  case Nil
  then show ?case by simp
next
  case (Cons c cs)
  obtain a b where c: "c = (a, b)" by (cases c)
  show ?case
  proof (cases i)
    case 0
    then show ?thesis by (simp add: from_pairs_def c)
  next
    case (Suc j)
    then have "j < length cs" using Cons.prems by simp
    from Cons.IH[OF this] show ?thesis
      by (simp add: from_pairs_def c Suc)
  qed
qed

lemma mapM_cong_Inr:
  "(\<And>x. x \<in> set xs \<Longrightarrow> f x = Inr (g x)) \<Longrightarrow> mapM f xs = Inr (map g xs)"
  by (induction xs) (simp_all add: ebind_def)

lemma bc_zipM_same:
  assumes "length xs = length ys"
    and "\<And>i. i < length xs \<Longrightarrow> f (xs ! i) (ys ! i) = Inr (g (xs ! i) (ys ! i))"
  shows "bc_zipM f xs ys = Inr (map (\<lambda>(x, y). g x y) (zip xs ys))"
proof -
  have "mapM (\<lambda>(x, y). f x y) (zip xs ys) = Inr (map (\<lambda>(x, y). g x y) (zip xs ys))"
  proof (rule mapM_cong_Inr)
    fix p assume "p \<in> set (zip xs ys)"
    then obtain i where "i < length xs" "p = (xs ! i, ys ! i)"
      using assms(1) by (auto simp: set_zip)
    then show "(case p of (x, y) \<Rightarrow> f x y) = Inr (case p of (x, y) \<Rightarrow> g x y)"
      using assms(2) by simp
  qed
  then show ?thesis using assms(1) by (simp add: bc_zipM_def)
qed

lemma rotate_vec:
  assumes "length h = 2 * P" "length frow = P"
  shows "ebind (bc_zipM (\<lambda>c f. Inr (cmul F c f)) (to_pairs h) frow) (\<lambda>r. Inr (from_pairs r))
         = Inr (rot_vec F h frow)"
proof -
  have "bc_zipM (\<lambda>c f. Inr (cmul F c f)) (to_pairs h) frow
        = Inr (map (\<lambda>(c, f). cmul F c f) (zip (to_pairs h) frow))"
    by (rule bc_zipM_same) (simp_all add: to_pairs_length assms)
  then show ?thesis by (simp add: ebind_def rot_vec_def)
qed

lemma shaped4_D:
  assumes "shaped4 x seq d" "b \<in> set x"
  shows "length b = seq" "\<And>s h. s \<in> set b \<Longrightarrow> h \<in> set s \<Longrightarrow> length h = d"
  using assms by (auto simp: shaped4_def list_all_iff)

lemma rotate_shaped:
  assumes sh: "shaped4 x (length fc) (2 * P)"
    and fr: "\<And>r. r \<in> set fc \<Longrightarrow> length r = P"
  shows "rotate F x fc =
           Inr (map (\<lambda>b. map (\<lambda>(s, frow). map (\<lambda>h. rot_vec F h frow) s) (zip b fc)) x)"
proof -
  have ne: "concat (concat x) \<noteq> []" using sh by (simp add: shaped4_def)
  have even: "\<not> list_ex (\<lambda>h. odd (length h)) (concat (concat x))"
    using shaped4_D(2)[OF sh] by (fastforce simp: list_ex_iff)
  have inner: "bc_zipM (\<lambda>s frow. mapM (\<lambda>h.
              ebind (bc_zipM (\<lambda>c f. Inr (cmul F c f)) (to_pairs h) frow)
                (\<lambda>r. Inr (from_pairs r))) s) b fc
             = Inr (map (\<lambda>(s, frow). map (\<lambda>h. rot_vec F h frow) s) (zip b fc))"
    if b: "b \<in> set x" for b
  proof (rule bc_zipM_same)
    show "length b = length fc" using shaped4_D(1)[OF sh b] .
  next
    fix i assume i: "i < length b"
    then have fi: "fc ! i \<in> set fc" using shaped4_D(1)[OF sh b] by simp
    have bi: "b ! i \<in> set b" using i by simp
    show "mapM (\<lambda>h. ebind (bc_zipM (\<lambda>c f. Inr (cmul F c f)) (to_pairs h) (fc ! i))
                 (\<lambda>r. Inr (from_pairs r))) (b ! i)
          = Inr (map (\<lambda>h. rot_vec F h (fc ! i)) (b ! i))"
      by (rule mapM_cong_Inr) (rule rotate_vec, rule shaped4_D(2)[OF sh b bi], assumption, rule fr[OF fi])
  qed
  show ?thesis
    unfolding rotate_def using ne even
    by (simp add: mapM_cong_Inr[where g = "\<lambda>b. map (\<lambda>(s, frow). map (\<lambda>h. rot_vec F h frow) s) (zip b fc)"] inner)
qed

lemma rot_vec_pair:
  assumes "length h = 2 * P" "length frow = P" "i < P"
  shows "rot_vec F h frow ! (2 * i) = fst (cmul F (h ! (2 * i), h ! (2 * i + 1)) (frow ! i))"
    and "rot_vec F h frow ! (2 * i + 1) = snd (cmul F (h ! (2 * i), h ! (2 * i + 1)) (frow ! i))"
proof -
  let ?cs = "map (\<lambda>(c, f). cmul F c f) (zip (to_pairs h) frow)"
  have l: "i < length ?cs" using assms by (simp add: to_pairs_length)
  have e: "?cs ! i = cmul F (h ! (2 * i), h ! (2 * i + 1)) (frow ! i)"
    using assms by (simp add: to_pairs_length to_pairs_nth)
  from from_pairs_nth[OF l] e
  show "rot_vec F h frow ! (2 * i) = fst (cmul F (h ! (2 * i), h ! (2 * i + 1)) (frow ! i))"
    and "rot_vec F h frow ! (2 * i + 1) = snd (cmul F (h ! (2 * i), h ! (2 * i + 1)) (frow ! i))"
    by (simp_all add: rot_vec_def)
qed

lemma arange2_even: "arange2 (int (2 * P)) = map (\<lambda>i. 2 * i) [0..<P]"
proof -
  have "(int (2 * P) + 1) div 2 = int P" by simp
  then show ?thesis unfolding arange2_def by simp
qed

lemma precompute_table:
  assumes "precompute_freqs_cis F (int (2 * P)) end_pos theta = Inr tab"
  shows "length tab = nat end_pos"
    and "\<And>p. p < length tab \<Longrightarrow> length (tab ! p) = P"
    and "\<And>p i. p < length tab \<Longrightarrow> i < P \<Longrightarrow>
           tab ! p ! i = polar F (Num 1) (rotary_angle F (int (2 * P)) theta p (2 * i))"
proof -
  have t: "tab = map (\<lambda>t. map (\<lambda>k. polar F (Num 1) (rotary_angle F (int (2 * P)) theta t k))
                 (map (\<lambda>i. 2 * i) [0..<P])) [0..<nat end_pos]"
    using assms unfolding precompute_freqs_cis_def arange2_even
    by (simp split: if_splits)
  show "length tab = nat end_pos" by (simp add: t)
  show "\<And>p. p < length tab \<Longrightarrow> length (tab ! p) = P" by (simp add: t)
  show "\<And>p i. p < length tab \<Longrightarrow> i < P \<Longrightarrow>
           tab ! p ! i = polar F (Num 1) (rotary_angle F (int (2 * P)) theta p (2 * i))"
    by (simp add: t)
qed

lemma accurateD:
  assumes "accurate F k u x"
  shows "round_to F k x = Num (rnd F k x)" "\<bar>rnd F k x - x\<bar> \<le> u * \<bar>x\<bar>"
  using assms by (auto simp: accurate_def rnd_def split: fp.splits)

lemma polar_unit:
  assumes u: "0 \<le> u" "u \<le> 1" and a: "polar_accurate F u t"
  shows "\<exists>th c s. t = Num th \<and> polar F (Num 1) t = (Num c, Num s) \<and>
           \<bar>c - cos th\<bar> \<le> 3 * u \<and> \<bar>s - sin th\<bar> \<le> 3 * u"
proof -
  from a obtain th where t: "t = Num th"
    and c0: "accurate F KCos u (cos th)" and c1: "accurate F KMul u (1 * rnd F KCos (cos th))"
    and s0: "accurate F KSin u (sin th)" and s1: "accurate F KMul u (1 * rnd F KSin (sin th))"
    by (auto simp: polar_accurate_def split: fp.splits)
  have two: "\<bar>y - x\<bar> \<le> u * \<bar>x\<bar> \<Longrightarrow> \<bar>z - 1 * y\<bar> \<le> u * \<bar>1 * y\<bar> \<Longrightarrow> \<bar>x\<bar> \<le> 1 \<Longrightarrow>
              \<bar>z - x\<bar> \<le> 3 * u" for x y z :: real
  proof -
    assume 1: "\<bar>y - x\<bar> \<le> u * \<bar>x\<bar>" and 2: "\<bar>z - 1 * y\<bar> \<le> u * \<bar>1 * y\<bar>" and 3: "\<bar>x\<bar> \<le> 1"
    have "u * \<bar>x\<bar> \<le> u * 1" by (rule mult_left_mono[OF 3 u(1)])
    with 1 have yx: "\<bar>y - x\<bar> \<le> u" by simp
    then have "\<bar>y\<bar> \<le> 2" using 3 u by linarith
    then have "u * \<bar>y\<bar> \<le> u * 2" by (rule mult_left_mono[OF _ u(1)])
    with 2 have "\<bar>z - y\<bar> \<le> 2 * u" by simp
    with yx show ?thesis by linarith
  qed
  let ?c = "rnd F KMul (1 * rnd F KCos (cos th))" and ?s = "rnd F KMul (1 * rnd F KSin (sin th))"
  have "polar F (Num 1) t = (Num ?c, Num ?s)"
    unfolding polar_def t using accurateD(1)[OF c0] accurateD(1)[OF c1]
      accurateD(1)[OF s0] accurateD(1)[OF s1] by simp
  moreover have "\<bar>?c - cos th\<bar> \<le> 3 * u"
    by (rule two[OF accurateD(2)[OF c0] accurateD(2)[OF c1]]) simp
  moreover have "\<bar>?s - sin th\<bar> \<le> 3 * u"
    by (rule two[OF accurateD(2)[OF s0] accurateD(2)[OF s1]]) simp
  ultimately show ?thesis using t by blast
qed

lemma cmul_bound:
  assumes u: "0 \<le> u" "u \<le> 1"
    and e: "\<bar>c - cos th\<bar> \<le> 3 * u" "\<bar>s - sin th\<bar> \<le> 3 * u"
    and a: "cmul_accurate F u (x, y) (Num c, Num s)"
  shows "\<exists>re im. cmul F (x, y) (Num c, Num s) = (Num re, Num im) \<and>
           \<bar>sqrt (re\<^sup>2 + im\<^sup>2) - sqrt ((num x)\<^sup>2 + (num y)\<^sup>2)\<bar>
             \<le> 60 * u * sqrt ((num x)\<^sup>2 + (num y)\<^sup>2)"
proof -
  from a obtain a' b' where x: "x = Num a'" and y: "y = Num b'"
    and p1: "accurate F KMul u (a' * c)" and p2: "accurate F KMul u (b' * s)"
    and re: "accurate F KAdd u (rnd F KMul (a' * c) - rnd F KMul (b' * s))"
    and p3: "accurate F KMul u (a' * s)" and p4: "accurate F KMul u (b' * c)"
    and im: "accurate F KAdd u (rnd F KMul (a' * s) + rnd F KMul (b' * c))"
    by (auto simp: cmul_accurate_def split: fp.splits)
  let ?re = "rnd F KAdd (rnd F KMul (a' * c) - rnd F KMul (b' * s))"
  let ?im = "rnd F KAdd (rnd F KMul (a' * s) + rnd F KMul (b' * c))"
  have "cmul F (x, y) (Num c, Num s) = (Num ?re, Num ?im)"
    unfolding cmul_def fsub_def x y
    using accurateD(1)[OF p1] accurateD(1)[OF p2] accurateD(1)[OF re]
      accurateD(1)[OF p3] accurateD(1)[OF p4] accurateD(1)[OF im] by simp
  moreover have "\<bar>sqrt (?re\<^sup>2 + ?im\<^sup>2) - sqrt (a'\<^sup>2 + b'\<^sup>2)\<bar> \<le> 60 * u * sqrt (a'\<^sup>2 + b'\<^sup>2)"
    by (rule rotation_error[OF u e accurateD(2)[OF p1] accurateD(2)[OF p2]
          accurateD(2)[OF p3] accurateD(2)[OF p4] accurateD(2)[OF re] accurateD(2)[OF im]])
  ultimately show ?thesis by (simp add: x y)
qed

lemma rot_pair_bound:
  assumes u: "0 \<le> u" "u \<le> 1"
    and l: "length h = 2 * P" "length frow = P" "i < P"
    and f: "frow ! i = polar F (Num 1) t"
    and a: "rotation_accurate F u t h i"
  shows "is_finite (rot_vec F h frow ! (2 * i)) \<and> is_finite (rot_vec F h frow ! (2 * i + 1)) \<and>
         \<bar>pair_abs (rot_vec F h frow) i - pair_abs h i\<bar> \<le> 60 * u * pair_abs h i"
proof -
  from a have pa: "polar_accurate F u t"
    and ca: "cmul_accurate F u (h ! (2 * i), h ! (2 * i + 1)) (polar F (Num 1) t)"
    by (simp_all add: rotation_accurate_def)
  from polar_unit[OF u pa] obtain th c s where
    p: "polar F (Num 1) t = (Num c, Num s)" and e: "\<bar>c - cos th\<bar> \<le> 3 * u" "\<bar>s - sin th\<bar> \<le> 3 * u"
    by blast
  from cmul_bound[OF u e ca[unfolded p]] obtain re im where
    m: "cmul F (h ! (2 * i), h ! (2 * i + 1)) (Num c, Num s) = (Num re, Num im)"
    and b: "\<bar>sqrt (re\<^sup>2 + im\<^sup>2) - sqrt ((num (h ! (2 * i)))\<^sup>2 + (num (h ! (2 * i + 1)))\<^sup>2)\<bar>
             \<le> 60 * u * sqrt ((num (h ! (2 * i)))\<^sup>2 + (num (h ! (2 * i + 1)))\<^sup>2)"
    by blast
  have r: "rot_vec F h frow ! (2 * i) = Num re" "rot_vec F h frow ! (2 * i + 1) = Num im"
    using rot_vec_pair[OF l, of F] m by (simp_all add: f p)
  have pa: "pair_abs (rot_vec F h frow) i = sqrt (re\<^sup>2 + im\<^sup>2)"
    unfolding pair_abs_def r by simp
  have fin: "is_finite (rot_vec F h frow ! (2 * i))" "is_finite (rot_vec F h frow ! (2 * i + 1))"
    unfolding r by simp_all
  show ?thesis unfolding pa using b fin by (simp add: pair_abs_def)
qed

lemma py_slice_inside:
  assumes "start + S \<le> length tab"
  shows "py_slice tab (int start) (int start + int S) = take S (drop start tab)"
proof -
  have e: "nat (int start + int S) = start + S" by (simp add: nat_add_distrib)
  show ?thesis
    unfolding py_slice_def slice_bound_def Let_def using assms by (simp add: min_def e)
qed

lemma sin_one_bounds: "33 / 40 \<le> sin (1::real)" "sin (1::real) \<le> 101 / 120"
proof -
  have s: "(\<Sum>m<5. sin_coeff m * (1::real) ^ m) = 5 / 6"
    by (simp add: numeral_eq_Suc sin_coeff_Suc cos_coeff_Suc)
  from Maclaurin_sin_bound[of 1 5]
  have "\<bar>sin (1::real) - 5 / 6\<bar> \<le> inverse (fact 5)" unfolding s by simp
  moreover have "inverse (fact 5 :: real) = 1 / 120" by (simp add: fact_numeral)
  ultimately have b: "\<bar>sin (1::real) - 5 / 6\<bar> \<le> 1 / 120" by simp
  from b show "33 / 40 \<le> sin (1::real)" by linarith
  from b show "sin (1::real) \<le> 101 / 120" by linarith
qed

lemma cos_one_bounds: "1 / 2 \<le> cos (1::real)"
proof -
  have "(1::real) \<le> pi / 2" using pi_ge_two by simp
  then have nn: "0 \<le> cos (1::real)" by (intro cos_ge_zero) simp_all
  have s0: "0 \<le> sin (1::real)" using sin_one_bounds(1) by linarith
  have "(sin (1::real))\<^sup>2 \<le> (101 / 120)\<^sup>2"
    by (rule power_mono[OF sin_one_bounds(2) s0])
  moreover have "(cos (1::real))\<^sup>2 = 1 - (sin 1)\<^sup>2"
    using sin_cos_squared_add[of "1::real"] by linarith
  ultimately have "(1 / 2)\<^sup>2 \<le> (cos (1::real))\<^sup>2" by (simp add: power2_eq_square)
  then show ?thesis using nn by (simp add: power2_le_iff_abs_le)
qed

lemma sin_cos_one: "16 / 15 \<le> sin (1::real) + cos 1"
  using sin_one_bounds(1) cos_one_bounds by linarith

text \<open>
  Claim C8, as amended.  For every even \<open>head_dim\<close>, every position inside the
  precomputed table and every query and key vector, the entry of the table for position
  \<open>p\<close> and pair \<open>i\<close> is \<open>polar(1, t)\<close> for the angle \<open>t\<close> that the floats give for
  \<open>p * theta^(-2i/head_dim)\<close>, and \<open>apply_rotary_emb\<close> multiplies every adjacent pair of
  the vectors by it.  The magnitude is kept up to rounding: where every operation that
  computes the entry from the angle, and every operation of the product, has a finite
  result of relative error at most \<open>u \<le> 1\<close>, the entry lies within \<open>3u\<close>, in both
  coordinates, of the point of the unit circle at the angle \<open>t\<close>, and the magnitude of the
  output pair differs from that of the input pair by at most \<open>60u\<close> times the latter.  With
  \<open>u = 0\<close>, where nothing is rounded, the entry has magnitude 1 and the magnitudes are
  equal.
\<close>

theorem rotary_pair_magnitude:
  assumes u: "0 \<le> u" "u \<le> 1"
    and tab: "precompute_freqs_cis F (int (2 * P)) end_pos theta = Inr tab"
    and fc: "fc = py_slice tab (int start) (int start + int S)"
    and inside: "int (start + S) \<le> end_pos"
    and q: "shaped4 xq S (2 * P)" and k: "shaped4 xk S (2 * P)"
  shows "(\<forall>p < nat end_pos. \<forall>i < P.
            tab ! p ! i = polar F (Num 1) (rotary_angle F (int (2 * P)) theta p (2 * i)) \<and>
            (polar_accurate F u (rotary_angle F (int (2 * P)) theta p (2 * i)) \<longrightarrow>
               (\<exists>th c s. rotary_angle F (int (2 * P)) theta p (2 * i) = Num th \<and>
                  tab ! p ! i = (Num c, Num s) \<and>
                  \<bar>c - cos th\<bar> \<le> 3 * u \<and> \<bar>s - sin th\<bar> \<le> 3 * u))) \<and>
         (\<exists>xq_out xk_out. apply_rotary_emb F xq xk fc = Inr (xq_out, xk_out) \<and>
            (\<forall>b < length xq. \<forall>s < S. \<forall>h < length (xq ! b ! s). \<forall>i < P.
               rotation_accurate F u (rotary_angle F (int (2 * P)) theta (start + s) (2 * i))
                 (xq ! b ! s ! h) i \<longrightarrow>
               is_finite (xq_out ! b ! s ! h ! (2 * i)) \<and>
               is_finite (xq_out ! b ! s ! h ! (2 * i + 1)) \<and>
               \<bar>pair_abs (xq_out ! b ! s ! h) i - pair_abs (xq ! b ! s ! h) i\<bar>
                 \<le> 60 * u * pair_abs (xq ! b ! s ! h) i) \<and>
            (\<forall>b < length xk. \<forall>s < S. \<forall>h < length (xk ! b ! s). \<forall>i < P.
               rotation_accurate F u (rotary_angle F (int (2 * P)) theta (start + s) (2 * i))
                 (xk ! b ! s ! h) i \<longrightarrow>
               is_finite (xk_out ! b ! s ! h ! (2 * i)) \<and>
               is_finite (xk_out ! b ! s ! h ! (2 * i + 1)) \<and>
               \<bar>pair_abs (xk_out ! b ! s ! h) i - pair_abs (xk ! b ! s ! h) i\<bar>
                 \<le> 60 * u * pair_abs (xk ! b ! s ! h) i))"
proof -
  note T = precompute_table[OF tab]
  let ?ang = "\<lambda>p i. rotary_angle F (int (2 * P)) theta p (2 * i)"
  have entries: "\<forall>p < nat end_pos. \<forall>i < P.
            tab ! p ! i = polar F (Num 1) (?ang p i) \<and>
            (polar_accurate F u (?ang p i) \<longrightarrow>
               (\<exists>th c s. ?ang p i = Num th \<and> tab ! p ! i = (Num c, Num s) \<and>
                  \<bar>c - cos th\<bar> \<le> 3 * u \<and> \<bar>s - sin th\<bar> \<le> 3 * u))"
  proof (intro allI impI conjI)
    fix p i assume p: "p < nat end_pos" and i: "i < P"
    show e: "tab ! p ! i = polar F (Num 1) (?ang p i)" using T(3)[of p i] p i T(1) by simp
    assume "polar_accurate F u (?ang p i)"
    from polar_unit[OF u this] show "\<exists>th c s. ?ang p i = Num th \<and> tab ! p ! i = (Num c, Num s) \<and>
                  \<bar>c - cos th\<bar> \<le> 3 * u \<and> \<bar>s - sin th\<bar> \<le> 3 * u"
      unfolding e by blast
  qed
  have len: "start + S \<le> length tab" using inside T(1) by linarith
  have fc': "fc = take S (drop start tab)" unfolding fc by (rule py_slice_inside[OF len])
  have lfc: "length fc = S" using len by (simp add: fc')
  have nth: "fc ! s = tab ! (start + s)" if "s < S" for s using that len by (simp add: fc')
  have rows: "length r = P" if "r \<in> set fc" for r
  proof -
    from that obtain s where "s < S" "r = fc ! s" using lfc by (auto simp: in_set_conv_nth)
    then show ?thesis using nth[of s] T(2)[of "start + s"] len by simp
  qed
  let ?rot = "\<lambda>x. map (\<lambda>b. map (\<lambda>(s, frow). map (\<lambda>h. rot_vec F h frow) s) (zip b fc)) x"
  have rq: "rotate F xq fc = Inr (?rot xq)" using rotate_shaped[of xq fc P F] q rows lfc by simp
  have rk: "rotate F xk fc = Inr (?rot xk)" using rotate_shaped[of xk fc P F] k rows lfc by simp
  have mag: "\<forall>b < length x. \<forall>s < S. \<forall>h < length (x ! b ! s). \<forall>i < P.
               rotation_accurate F u (?ang (start + s) i) (x ! b ! s ! h) i \<longrightarrow>
               is_finite (?rot x ! b ! s ! h ! (2 * i)) \<and>
               is_finite (?rot x ! b ! s ! h ! (2 * i + 1)) \<and>
               \<bar>pair_abs (?rot x ! b ! s ! h) i - pair_abs (x ! b ! s ! h) i\<bar>
                 \<le> 60 * u * pair_abs (x ! b ! s ! h) i"
    if sh: "shaped4 x S (2 * P)" for x
  proof (intro allI impI)
    fix b s h i
    assume b: "b < length x" and s: "s < S" and h: "h < length (x ! b ! s)" and i: "i < P"
      and acc: "rotation_accurate F u (?ang (start + s) i) (x ! b ! s ! h) i"
    have bx: "x ! b \<in> set x" using b by simp
    have lb: "length (x ! b) = S" using shaped4_D(1)[OF sh bx] .
    have sx: "x ! b ! s \<in> set (x ! b)" using s lb by simp
    have hx: "x ! b ! s ! h \<in> set (x ! b ! s)" using h by simp
    have lh: "length (x ! b ! s ! h) = 2 * P" using shaped4_D(2)[OF sh bx sx hx] .
    have fs: "fc ! s \<in> set fc" using s lfc by simp
    have f: "fc ! s ! i = polar F (Num 1) (?ang (start + s) i)"
      using nth[OF s] T(3)[of "start + s" i] len s i by simp
    have "?rot x ! b ! s ! h = rot_vec F (x ! b ! s ! h) (fc ! s)"
      using b s h lb lfc by simp
    then show "is_finite (?rot x ! b ! s ! h ! (2 * i)) \<and>
               is_finite (?rot x ! b ! s ! h ! (2 * i + 1)) \<and>
               \<bar>pair_abs (?rot x ! b ! s ! h) i - pair_abs (x ! b ! s ! h) i\<bar>
                 \<le> 60 * u * pair_abs (x ! b ! s ! h) i"
      using rot_pair_bound[OF u lh rows[OF fs] i f acc] by simp
  qed
  have "apply_rotary_emb F xq xk fc = Inr (?rot xq, ?rot xk)"
    by (simp add: apply_rotary_emb_def rq rk ebind_def)
  then show ?thesis using entries mag[OF q] mag[OF k] by blast
qed

section \<open>\<open>Transformer.forward\<close> and the rotary table\<close>

lemma slice_arith:
  "min (min (A + N) L - min A L) (L - min A L) = min N (L - (A::nat))"
  unfolding min_def by auto

lemma py_slice_length:
  assumes "0 \<le> a" "0 \<le> n"
  shows "length (py_slice xs a (a + n)) = min (nat n) (length xs - nat a)"
proof -
  have n: "nat (a + n) = nat a + nat n" using assms by (simp add: nat_add_distrib)
  have "length (py_slice xs a (a + n)) =
          min (min (nat a + nat n) (length xs) - min (nat a) (length xs))
              (length xs - min (nat a) (length xs))"
    using assms unfolding py_slice_def slice_bound_def Let_def n by simp
  then show ?thesis unfolding slice_arith .
qed

lemma forward_depends_on_slice:
  assumes "forward_freqs_cis T tokens s = forward_freqs_cis T tokens s'"
  shows "Transformer_forward F T tokens s = Transformer_forward F T tokens s'"
  using assms by (simp add: Transformer_forward_def)

text \<open>
  Claim C2, as amended.  \<open>Transformer.forward\<close> does not check \<open>start_pos + seq_len\<close>
  against the rotary table.  For every call with \<open>start_pos \<ge> 0\<close> the slice of the table
  that it hands to the layers has \<open>min(seq_len, N - start_pos)\<close> rows, \<open>N\<close> being the
  number of rows of the table and the difference being 0 when \<open>start_pos\<close> exceeds \<open>N\<close>;
  so it is shorter than \<open>seq_len\<close> whenever \<open>start_pos + seq_len\<close> exceeds \<open>N\<close> and
  \<open>seq_len\<close> is positive.  The outcome of the call depends on \<open>start_pos\<close> through that
  slice only: two start positions with the same slice, and in particular any two beyond
  the end of the table, give the same outcome.
\<close>

theorem forward_slices_without_check:
  assumes "0 \<le> start_pos"
  shows "length (forward_freqs_cis T tokens start_pos) =
           min (seqlen_of tokens) (length (freqs_cis T) - nat start_pos) \<and>
         (0 < seqlen_of tokens \<and>
          int (length (freqs_cis T)) < start_pos + int (seqlen_of tokens) \<longrightarrow>
            length (forward_freqs_cis T tokens start_pos) < seqlen_of tokens) \<and>
         (\<forall>s'. forward_freqs_cis T tokens s' = forward_freqs_cis T tokens start_pos \<longrightarrow>
            Transformer_forward F T tokens s' = Transformer_forward F T tokens start_pos) \<and>
         (\<forall>s'. int (length (freqs_cis T)) \<le> start_pos \<and> int (length (freqs_cis T)) \<le> s' \<longrightarrow>
            Transformer_forward F T tokens s' = Transformer_forward F T tokens start_pos)"
proof -
  have l: "length (forward_freqs_cis T tokens start_pos) =
           min (seqlen_of tokens) (length (freqs_cis T) - nat start_pos)"
    unfolding forward_freqs_cis_def using py_slice_length[OF assms, of "int (seqlen_of tokens)"]
    by simp
  have s: "0 < seqlen_of tokens \<and>
           int (length (freqs_cis T)) < start_pos + int (seqlen_of tokens) \<Longrightarrow>
            length (forward_freqs_cis T tokens start_pos) < seqlen_of tokens"
  proof -
    assume h: "0 < seqlen_of tokens \<and>
               int (length (freqs_cis T)) < start_pos + int (seqlen_of tokens)"
    obtain k where k: "start_pos = int k" using assms nonneg_int_cases by blast
    from h have "length (freqs_cis T) < k + seqlen_of tokens" unfolding k by linarith
    with h have "length (freqs_cis T) - k < seqlen_of tokens" by linarith
    then show ?thesis using l unfolding k by simp
  qed
  have e: "forward_freqs_cis T tokens s' = []" if "int (length (freqs_cis T)) \<le> s'" for s'
    using that by (auto simp: forward_freqs_cis_def py_slice_def slice_bound_def Let_def)
  have b: "Transformer_forward F T tokens s' = Transformer_forward F T tokens start_pos"
    if "int (length (freqs_cis T)) \<le> start_pos \<and> int (length (freqs_cis T)) \<le> s'" for s'
    by (rule forward_depends_on_slice) (use that e in simp)
  show ?thesis using l s b forward_depends_on_slice[of T tokens _ start_pos F] by blast
qed

text \<open>
  Claim C2 as stated fails: a model whose table has two rows, called with two tokens
  and \<open>start_pos = 1\<close>, takes the one-row slice of position 1 and returns logits.
\<close>

lemma tiny_slice: "forward_freqs_cis tiny [[0, 0]] 1 = [1]"
  by (simp add: forward_freqs_cis_def py_slice_def slice_bound_def seqlen_of_def tiny_def)

lemma sqrt_small: "1 / sqrt (1 / 100000) < (2::real) ^ 128 - 2 ^ 103"
proof -
  have "sqrt (100000::real) \<le> sqrt (100000 ^ 2)"
    by (rule real_sqrt_le_mono) simp
  then have "sqrt (100000::real) \<le> 100000" by simp
  moreover have "1 / sqrt (1 / 100000 :: real) = sqrt 100000"
    by (simp add: real_sqrt_divide)
  ultimately show ?thesis using big32 by linarith
qed

lemma tiny_norm:
  "RMSNorm_forward (binary32 exact) (norm_f tiny) [Num 0, Num 0] = Inr [Num 0, Num 0]"
proof -
  have r: "round_to (binary32 exact) KRsqrt (1 / sqrt (1 / 100000)) =
             Num (1 / sqrt (1 / 100000))"
  proof -
    have p: "(0::real) < 1 / sqrt (1 / 100000)" by simp
    then have "\<bar>1 / sqrt (1 / 100000 :: real)\<bar> = 1 / sqrt (1 / 100000)"
      by (rule abs_of_pos)
    then have "\<not> ovf (binary32 exact) \<le> \<bar>1 / sqrt (1 / 100000 :: real)\<bar>"
      using sqrt_small by simp
    from round_to_in_range[OF this, of KRsqrt] p show ?thesis by simp
  qed
  have c: "round_to (binary32 exact) k (1 / 100000) = Num (1 / 100000)" for k
    using big32 by (simp add: round_to_def)
  have s: "\<And>k x. \<bar>x\<bar> \<le> 100000 \<Longrightarrow> round_to (binary32 exact) k x = Num x"
    using exact_op_small by (simp add: exact_op_def)
  have "RMSNorm_norm (binary32 exact) (norm_f tiny) [Num 0, Num 0] = [Num 0, Num 0]"
    unfolding RMSNorm_norm_def Let_def fsum_def tiny_def
    by (simp add: s r)
  then show ?thesis
    unfolding RMSNorm_forward_def
    by (simp add: bc_zipM_def ebind_def tiny_def round_to_def[of _ _ 0])
qed

lemma tiny_output:
  "Linear_forward (binary32 exact) (output_f tiny) [Num 0, Num 0] = Inr [Num 0]"
  by (simp add: Linear_forward_def tiny_def fsum_def round_to_def[of _ _ 0])

theorem forward_beyond_table:
  "length (freqs_cis tiny) = 2 \<and> seqlen_of [[0, 0]] = 2 \<and>
   int (length (freqs_cis tiny)) < 1 + int (seqlen_of [[0, 0]]) \<and>
   forward_freqs_cis tiny [[0, 0]] 1 = [1] \<and>
   Transformer_forward (binary32 exact) tiny [[0, 0]] 1 = Inr [[[Num 0], [Num 0]]]"
proof -
  have e: "Embedding_forward (tok_embeddings tiny) [[0, 0]] = Inr [[[Num 0, Num 0], [Num 0, Num 0]]]"
    by (simp add: Embedding_forward_def tiny_def ebind_def)
  have l: "layers tiny = []" by (simp add: tiny_def)
  have "Transformer_forward (binary32 exact) tiny [[0, 0]] 1 = Inr [[[Num 0], [Num 0]]]"
    unfolding Transformer_forward_def e l
    by (simp add: ebind_def tiny_norm tiny_output)
  then show ?thesis using tiny_slice by (simp add: tiny_def seqlen_of_def)
qed

text \<open>
  The same model: at \<open>start_pos = 1\<close> the slice for two tokens has one row, and the calls
  at the start positions 2 and 7, both beyond the table, agree.
\<close>

theorem forward_slices_without_check_witness:
  "(0::int) \<le> 1 \<and>
   int (length (freqs_cis tiny)) < 1 + int (seqlen_of [[0, 0]]) \<and>
   length (forward_freqs_cis tiny [[0, 0]] 1) = 1 \<and>
   length (forward_freqs_cis tiny [[0, 0]] 1) < seqlen_of [[0, 0]] \<and>
   int (length (freqs_cis tiny)) \<le> 2 \<and> int (length (freqs_cis tiny)) \<le> 7 \<and>
   Transformer_forward (binary32 exact) tiny [[0, 0]] 7 =
     Transformer_forward (binary32 exact) tiny [[0, 0]] 2"
proof -
  have p: "(0::int) \<le> 1" "(0::int) \<le> 2" by simp_all
  have n: "int (length (freqs_cis tiny)) < 1 + int (seqlen_of [[0, 0]])"
    "int (length (freqs_cis tiny)) \<le> 2" "int (length (freqs_cis tiny)) \<le> 7"
    by (simp_all add: tiny_def seqlen_of_def)
  have q: "0 < seqlen_of [[0, 0]]" by (simp add: seqlen_of_def)
  from forward_slices_without_check[OF p(1), of tiny "[[0, 0]]" "binary32 exact"] n(1) q
  have a: "length (forward_freqs_cis tiny [[0, 0]] 1) =
             min (seqlen_of [[0, 0]]) (length (freqs_cis tiny) - nat 1)"
    "length (forward_freqs_cis tiny [[0, 0]] 1) < seqlen_of [[0, 0]]"
    by blast+
  from a(1) have a1: "length (forward_freqs_cis tiny [[0, 0]] 1) = 1"
    by (simp add: tiny_def seqlen_of_def)
  from forward_slices_without_check[OF p(2), of tiny "[[0, 0]]" "binary32 exact"] n(2,3)
  have b: "Transformer_forward (binary32 exact) tiny [[0, 0]] 7 =
     Transformer_forward (binary32 exact) tiny [[0, 0]] 2"
    by blast
  show ?thesis using p a1 a(2) n b by blast
qed

section \<open>Greedy decoding\<close>

lemma argmax_from_map:
  assumes "\<forall>a\<in>set (bv # xs). \<forall>b\<in>set (bv # xs). replaces (f a) (f b) = replaces a b"
  shows "argmax_from best (f bv) i (map f xs) = argmax_from best bv i xs"
  using assms
proof (induction xs arbitrary: best bv i)
  case Nil
  show ?case by simp
next
  case (Cons x xs)
  have r: "replaces (f x) (f bv) = replaces x bv" using Cons.prems by simp
  have 1: "argmax_from i (f x) (Suc i) (map f xs) = argmax_from i x (Suc i) xs"
    by (rule Cons.IH) (use Cons.prems in auto)
  have 2: "argmax_from best (f bv) (Suc i) (map f xs) = argmax_from best bv (Suc i) xs"
    by (rule Cons.IH) (use Cons.prems in auto)
  show ?case by (simp add: r 1 2)
qed

lemma argmax_keeps_order:
  assumes "keeps_order F s row"
  shows "argmax (map (\<lambda>v. fdiv F v (cast F s)) row) = argmax row"
proof (cases row)
  case Nil
  then show ?thesis by (simp add: argmax_def)
next
  case (Cons x r)
  have "\<forall>a\<in>set (x # r). \<forall>b\<in>set (x # r).
          replaces (fdiv F a (cast F s)) (fdiv F b (cast F s)) = replaces a b"
    using assms unfolding keeps_order_def Cons list_all_iff by blast
  from argmax_from_map[of x r "\<lambda>v. fdiv F v (cast F s)", OF this]
  show ?thesis by (simp add: argmax_def Cons)
qed

lemma mapM_argmax_keeps_order:
  "list_all (keeps_order F s) lg \<Longrightarrow> mapM argmax (div_scalar F lg s) = mapM argmax lg"
  unfolding div_scalar_def
  by (induction lg) (simp_all add: argmax_keeps_order)

lemma greedy_loop_two_temperatures:
  assumes "\<And>ids outputs lg. m ids 0 = Inr outputs \<Longrightarrow> last_position outputs = Inr lg \<Longrightarrow>
             mapM argmax (div_scalar F lg s) = mapM argmax (div_scalar F lg t)"
  shows "greedy_loop F m eos s n ids = greedy_loop F m eos t n ids"
proof (induction n arbitrary: ids)
  case 0
  show ?case by simp
next
  case (Suc n)
  have IH': "greedy_loop F m eos s n = greedy_loop F m eos t n"
    by (rule ext) (rule Suc.IH)
  show ?case
  proof (cases "m ids 0")
    case (Inl e)
    then show ?thesis by (simp add: ebind_def)
  next
    case (Inr outputs)
    show ?thesis
    proof (cases "last_position outputs")
      case (Inl e)
      then show ?thesis using Inr by (simp add: ebind_def)
    next
      case lg: (Inr lg)
      have e: "\<And>x f. ebind (Inr x) f = f x" by (simp add: ebind_def)
      show ?thesis
        unfolding greedy_loop.simps Inr lg e assms[OF Inr lg] IH' ..
    qed
  qed
qed

text \<open>
  Claim C10, as amended.  In \<open>generate_text_greedy\<close>, for every temperature whose
  division keeps the order of the last-position logits that the model returns, dividing
  the logits by the temperature before \<open>argmax\<close> selects the same next token as \<open>argmax\<close>
  of the raw logits; so the generated sequence and text are identical for any two such
  temperatures.
\<close>

theorem temperature_order_kept:
  assumes s: "\<forall>ids outputs lg. m ids 0 = Inr outputs \<longrightarrow> last_position outputs = Inr lg \<longrightarrow>
                list_all (keeps_order F s) lg"
      and t: "\<forall>ids outputs lg. m ids 0 = Inr outputs \<longrightarrow> last_position outputs = Inr lg \<longrightarrow>
                list_all (keeps_order F t) lg"
  shows "(\<forall>ids outputs lg. m ids 0 = Inr outputs \<longrightarrow> last_position outputs = Inr lg \<longrightarrow>
            mapM argmax (div_scalar F lg s) = mapM argmax lg) \<and>
         greedy_loop F m eos s n input_ids = greedy_loop F m eos t n input_ids \<and>
         generate_text_greedy F m tok prompt max_length s =
           generate_text_greedy F m tok prompt max_length t"
proof -
  have a: "mapM argmax (div_scalar F lg s) = mapM argmax lg"
    if "m ids 0 = Inr outputs" "last_position outputs = Inr lg" for ids outputs lg
    using s that mapM_argmax_keeps_order by blast
  have b: "mapM argmax (div_scalar F lg t) = mapM argmax lg"
    if "m ids 0 = Inr outputs" "last_position outputs = Inr lg" for ids outputs lg
    using t that mapM_argmax_keeps_order by blast
  have l: "greedy_loop F m eos s n ids = greedy_loop F m eos t n ids" for eos n ids
    by (rule greedy_loop_two_temperatures) (simp add: a b)
  show ?thesis
    using a by (simp add: generate_text_greedy_def l[of "eos_token_id tok"] l[of eos])
qed

text \<open>
  Claim C10 as stated fails for a positive temperature beyond the range of the 32-bit
  floats: \<open>2.0 ** 130\<close> is converted to \<open>+inf\<close>, every finite logit divided by it is 0, and
  \<open>argmax\<close> returns token 0 where the raw logits \<open>[1, 3, 2]\<close> select token 1.  The
  generated sequence is \<open>[5, 0, 0, 0]\<close>, and \<open>[5, 1, 1, 1]\<close> at temperature 1.
\<close>

lemma cast_overflow: "cast (binary32 exact) hot = Pinf"
  by (simp add: hot_def round_to_def)

lemma step_hot:
  "mapM argmax (div_scalar (binary32 exact) [[Num 1, Num 3, Num 2]] hot) = Inr [0]"
  by (simp add: div_scalar_def cast_overflow argmax_def replaces_def ebind_def)

lemma step_one:
  "mapM argmax (div_scalar (binary32 exact) [[Num 1, Num 3, Num 2]] (Num 1)) = Inr [1]"
  using big32
  by (simp add: div_scalar_def round_to_def argmax_def replaces_def ebind_def)

lemma step_two:
  "mapM argmax (div_scalar (binary32 exact) [[Num 1, Num 3, Num 2]] (Num 2)) = Inr [1]"
  using big32
  by (simp add: div_scalar_def round_to_def argmax_def replaces_def ebind_def)

lemma loop_hot:
  "greedy_loop (binary32 exact) const_model None hot 3 [[5]] = Inr [[5, 0, 0, 0]]"
  by (simp add: numeral_3_eq_3 const_model_def last_position_def step_hot cat_last_def
      item_def ebind_def)

lemma loop_one:
  "greedy_loop (binary32 exact) const_model None (Num 1) 3 [[5]] = Inr [[5, 1, 1, 1]]"
  by (simp add: numeral_3_eq_3 const_model_def last_position_def step_one cat_last_def
      item_def ebind_def)

lemma loop_two:
  "greedy_loop (binary32 exact) const_model None (Num 2) 3 [[5]] = Inr [[5, 1, 1, 1]]"
  by (simp add: numeral_3_eq_3 const_model_def last_position_def step_two cat_last_def
      item_def ebind_def)

theorem temperature_changes_tokens:
  "cast (binary32 exact) hot = Pinf \<and> fp_less (Num 0) hot \<and>
   mapM argmax (div_scalar (binary32 exact) [[Num 1, Num 3, Num 2]] hot) = Inr [0] \<and>
   mapM argmax [[Num 1, Num 3, Num 2]] = Inr [1] \<and>
   greedy_loop (binary32 exact) const_model None hot 3 [[5]] = Inr [[5, 0, 0, 0]] \<and>
   greedy_loop (binary32 exact) const_model None (Num 1) 3 [[5]] = Inr [[5, 1, 1, 1]]"
  using step_hot loop_hot loop_one cast_overflow
  by (simp add: argmax_def replaces_def ebind_def hot_def)

text \<open>
  The temperatures 2 and 1 keep the order of the logits \<open>[1, 3, 2]\<close>, and both generate
  \<open>[5, 1, 1, 1]\<close>.
\<close>

lemma keeps12: "keeps_order (binary32 exact) (Num 2) [Num 1, Num 3, Num 2]"
  "keeps_order (binary32 exact) (Num 1) [Num 1, Num 3, Num 2]"
  using big32 by (simp_all add: keeps_order_def round_to_def replaces_def)

theorem temperature_order_kept_witness:
  "keeps_order (binary32 exact) (Num 2) [Num 1, Num 3, Num 2] \<and>
   keeps_order (binary32 exact) (Num 1) [Num 1, Num 3, Num 2] \<and>
   greedy_loop (binary32 exact) const_model None (Num 2) 3 [[5]] =
     greedy_loop (binary32 exact) const_model None (Num 1) 3 [[5]] \<and>
   greedy_loop (binary32 exact) const_model None (Num 2) 3 [[5]] = Inr [[5, 1, 1, 1]]"
proof -
  have h: "\<forall>ids outputs lg. const_model ids 0 = Inr outputs \<longrightarrow>
             last_position outputs = Inr lg \<longrightarrow> list_all (keeps_order (binary32 exact) s) lg"
    if "keeps_order (binary32 exact) s [Num 1, Num 3, Num 2]" for s
    using that by (auto simp: const_model_def last_position_def ebind_def)
  have "greedy_loop (binary32 exact) const_model None (Num 2) 3 [[5]] =
     greedy_loop (binary32 exact) const_model None (Num 1) 3 [[5]]"
    by (rule temperature_order_kept[where m = const_model and F = "binary32 exact"
          and s = "Num 2" and t = "Num 1", OF h[OF keeps12(1)] h[OF keeps12(2)],
          THEN conjunct2, THEN conjunct1])
  then show ?thesis using keeps12 loop_two by simp
qed

end
